theory Spec2Isabelle
  imports Complex_Main "HOL-Library.Multiset" "HOL-Library.Monad_Syntax"
begin

section \<open>Floating-point numbers\<close>

text \<open>
  A \<^verbatim>\<open>float64\<close> is a NaN, an infinity or a finite number. The finite numbers are embedded
  in the reals and the arithmetic on them is exact: rounding, overflow and the sign of zero
  are not modelled (the one rounded number is the constant \<^verbatim>\<open>math.Pi\<close>, below). On the
  special values the operators of Go and the functions of package
  \<^verbatim>\<open>math\<close> follow IEEE 754: every comparison with a NaN is false, an operation on a NaN
  gives a NaN, and so do \<open>\<infinity> - \<infinity>\<close>, \<open>0 \<cdot> \<infinity>\<close>, \<open>0 / 0\<close> and \<open>\<infinity> / \<infinity>\<close>.
\<close>

datatype float64 = NaN | NegInf | Fin real | PosInf

text \<open>The comparisons \<^verbatim>\<open>a < b\<close>, \<^verbatim>\<open>a <= b\<close> and \<^verbatim>\<open>a >= b\<close>.\<close>

fun flt :: "float64 \<Rightarrow> float64 \<Rightarrow> bool" where
  "flt (Fin a) (Fin b) = (a < b)"
| "flt NaN b = False"
| "flt a NaN = False"
| "flt a NegInf = False"
| "flt NegInf b = True"
| "flt PosInf b = False"
| "flt a PosInf = True"

definition fle :: "float64 \<Rightarrow> float64 \<Rightarrow> bool" where
  "fle a b = (flt a b \<or> (a = b \<and> a \<noteq> NaN))"

definition fge :: "float64 \<Rightarrow> float64 \<Rightarrow> bool" where
  "fge a b = fle b a"

text \<open>The sign of a number that is not a NaN: \<open>-1\<close>, \<open>0\<close> or \<open>1\<close>.\<close>

fun sign_of :: "float64 \<Rightarrow> real" where
  "sign_of (Fin a) = sgn a"
| "sign_of PosInf = 1"
| "sign_of NegInf = - 1"
| "sign_of NaN = 0"

text \<open>The operators \<^verbatim>\<open>-a\<close>, \<^verbatim>\<open>a + b\<close>, \<^verbatim>\<open>a - b\<close>, \<^verbatim>\<open>a * b\<close> and \<^verbatim>\<open>a / b\<close>.\<close>

fun fneg :: "float64 \<Rightarrow> float64" where
  "fneg (Fin a) = Fin (- a)"
| "fneg PosInf = NegInf"
| "fneg NegInf = PosInf"
| "fneg NaN = NaN"

fun fadd :: "float64 \<Rightarrow> float64 \<Rightarrow> float64" where
  "fadd (Fin a) (Fin b) = Fin (a + b)"
| "fadd NaN b = NaN"
| "fadd a NaN = NaN"
| "fadd PosInf NegInf = NaN"
| "fadd NegInf PosInf = NaN"
| "fadd PosInf b = PosInf"
| "fadd NegInf b = NegInf"
| "fadd a PosInf = PosInf"
| "fadd a NegInf = NegInf"

definition fsub :: "float64 \<Rightarrow> float64 \<Rightarrow> float64" where
  "fsub a b = fadd a (fneg b)"

fun fmul :: "float64 \<Rightarrow> float64 \<Rightarrow> float64" where
  "fmul (Fin a) (Fin b) = Fin (a * b)"
| "fmul NaN b = NaN"
| "fmul a NaN = NaN"
| "fmul a b =
     (if sign_of a * sign_of b > 0 then PosInf
      else if sign_of a * sign_of b < 0 then NegInf
      else NaN)"

fun fdiv :: "float64 \<Rightarrow> float64 \<Rightarrow> float64" where
  "fdiv (Fin a) (Fin b) =
     (if b \<noteq> 0 then Fin (a / b)
      else if a > 0 then PosInf
      else if a < 0 then NegInf
      else NaN)"
| "fdiv NaN b = NaN"
| "fdiv a NaN = NaN"
| "fdiv (Fin a) b = Fin 0"
| "fdiv a (Fin b) = (if sign_of a * (if b < 0 then - 1 else 1) > 0 then PosInf else NegInf)"
| "fdiv a b = NaN"

text \<open>
  \<^verbatim>\<open>math.Pi\<close> is an untyped constant. Where it meets a \<^verbatim>\<open>float64\<close> operand, as in
  \<^verbatim>\<open>lat*math.Pi/180\<close>, it is converted to the \<^verbatim>\<open>float64\<close> nearest to \<open>\<pi>\<close>, which is
  \<^verbatim>\<open>884279719003555 / 2^48\<close>, a little below \<open>\<pi>\<close>. A constant expression such as
  \<^verbatim>\<open>180.0 / math.Pi\<close> is evaluated exactly by the compiler, from \<open>\<pi>\<close> itself.
\<close>

definition math_Pi :: float64 where
  "math_Pi = Fin (884279719003555 / 281474976710656)"

text \<open>\<^verbatim>\<open>math.Sin\<close>, \<^verbatim>\<open>math.Cos\<close>, \<^verbatim>\<open>math.Sqrt\<close>.\<close>

fun Sin :: "float64 \<Rightarrow> float64" where
  "Sin (Fin a) = Fin (sin a)"
| "Sin a = NaN"

fun Cos :: "float64 \<Rightarrow> float64" where
  "Cos (Fin a) = Fin (cos a)"
| "Cos a = NaN"

fun Sqrt :: "float64 \<Rightarrow> float64" where
  "Sqrt (Fin a) = (if a < 0 then NaN else Fin (sqrt a))"
| "Sqrt PosInf = PosInf"
| "Sqrt a = NaN"

text \<open>
  \<^verbatim>\<open>math.Atan2(y, x)\<close>: on finite arguments the angle of the point \<open>(x, y)\<close>, in \<open>(-\<pi>, \<pi>]\<close>;
  on the special values as the documentation of the function lists them.
\<close>

definition angle_of :: "real \<Rightarrow> real \<Rightarrow> real" where
  "angle_of y x =
     (if x > 0 then arctan (y / x)
      else if x < 0 then (if y \<ge> 0 then arctan (y / x) + pi else arctan (y / x) - pi)
      else if y > 0 then pi / 2
      else if y < 0 then - pi / 2
      else 0)"

fun Atan2 :: "float64 \<Rightarrow> float64 \<Rightarrow> float64" where
  "Atan2 (Fin y) (Fin x) = Fin (angle_of y x)"
| "Atan2 NaN x = NaN"
| "Atan2 y NaN = NaN"
| "Atan2 PosInf PosInf = Fin (pi / 4)"
| "Atan2 NegInf PosInf = Fin (- pi / 4)"
| "Atan2 PosInf NegInf = Fin (3 * pi / 4)"
| "Atan2 NegInf NegInf = Fin (- 3 * pi / 4)"
| "Atan2 (Fin y) PosInf = Fin 0"
| "Atan2 (Fin y) NegInf = Fin (if y \<ge> 0 then pi else - pi)"
| "Atan2 PosInf x = Fin (pi / 2)"
| "Atan2 NegInf x = Fin (- pi / 2)"

section \<open>Spatial index: the 2-d tree over latitude and longitude\<close>

text \<open>The Go type \<^verbatim>\<open>Point[T]\<close>: two \<^verbatim>\<open>float64\<close> coordinates and a payload.\<close>

record 'a Point =
  Lat :: float64
  Lon :: float64
  Data :: 'a

text \<open>A \<^verbatim>\<open>*Node[T]\<close>: the nil pointer or a node that owns its two children.\<close>

datatype 'a Node =
  NilNode
| Node (Point: "'a Point") (Left: "'a Node") (Right: "'a Node") (Axis: nat)

text \<open>The coordinate that a node with the given axis compares: 0 is latitude, else longitude.\<close>

definition coord :: "nat \<Rightarrow> 'a Point \<Rightarrow> float64" where
  "coord axis p = (if axis = 0 then Lat p else Lon p)"

text \<open>
  \<^verbatim>\<open>sort.SliceStable(x, less)\<close> of the standard library. On a slice of at most 20 elements
  it runs the insertion sort below and nothing else: the element at each index in turn
  moves left while \<^verbatim>\<open>less\<close> puts it before its left neighbour. Longer slices are sorted in
  blocks of 20 in this way and the blocks are merged; when \<^verbatim>\<open>less\<close> is a strict weak order
  (for the comparison of coordinates: when none of them is a NaN) the result is the one
  stable sorted arrangement, which the insertion sort computes as well. The sorted prefix
  is kept in reverse, its last element first.
\<close>

fun insertionStep :: "('a \<Rightarrow> 'a \<Rightarrow> bool) \<Rightarrow> 'a list \<Rightarrow> 'a \<Rightarrow> 'a list" where
  "insertionStep lt [] x = [x]"
| "insertionStep lt (y # prefix_rev) x =
     (if lt x y then y # insertionStep lt prefix_rev x else x # y # prefix_rev)"

definition SliceStable :: "'a list \<Rightarrow> ('a \<Rightarrow> 'a \<Rightarrow> bool) \<Rightarrow> 'a list" where
  "SliceStable x lt = rev (foldl (insertionStep lt) [] x)"

function BuildKDTree :: "'a Point list \<Rightarrow> nat \<Rightarrow> 'a Node" where
  "BuildKDTree points depth =
     (if length points = 0 then NilNode
      else
        let axis = depth mod 2;
            sorted = SliceStable points
                       (\<lambda>p q. if axis = 0 then flt (Lat p) (Lat q) else flt (Lon p) (Lon q));
            median = length sorted div 2
        in Node (sorted ! median)
                (BuildKDTree (take median sorted) (depth + 1))
                (BuildKDTree (drop (median + 1) sorted) (depth + 1))
                axis)"
  by pat_completeness auto
termination
proof (relation "measure (\<lambda>(points, depth). length points)")
  have step: "length (insertionStep lt rs x) = Suc (length rs)"
    for lt :: "'a Point \<Rightarrow> 'a Point \<Rightarrow> bool" and rs x
    by (induction rs) auto
  have "length (foldl (insertionStep lt) acc xs) = length acc + length xs"
    for lt :: "'a Point \<Rightarrow> 'a Point \<Rightarrow> bool" and acc xs
    by (induction xs arbitrary: acc) (auto simp: step)
  from this[of _ "[]"] have len: "length (SliceStable xs lt) = length xs"
    for lt :: "'a Point \<Rightarrow> 'a Point \<Rightarrow> bool" and xs
    by (simp add: SliceStable_def)
  fix points :: "'a Point list" and depth axis :: nat and sorted :: "'a Point list" and median :: nat
  assume a: "length points \<noteq> 0" "axis = depth mod 2"
    "sorted = SliceStable points
       (\<lambda>p q. if axis = 0 then flt (Lat p) (Lat q) else flt (Lon p) (Lon q))"
    "median = length sorted div 2"
  show "((take median sorted, depth + 1), points, depth)
      \<in> measure (\<lambda>(points, depth). length points)"
    using a by (simp add: len)
  show "((drop (median + 1) sorted, depth + 1), points, depth)
      \<in> measure (\<lambda>(points, depth). length points)"
    using a by (simp add: len)
qed simp

declare BuildKDTree.simps [simp del]

fun Insert :: "'a Node \<Rightarrow> 'a Point \<Rightarrow> nat \<Rightarrow> 'a Node" where
  "Insert NilNode point depth = Node point NilNode NilNode (depth mod 2)"
| "Insert (Node rp l r axis) point depth =
     (let (key, rootKey) = (if axis = 0 then (Lat point, Lat rp) else (Lon point, Lon rp))
      in if flt key rootKey then Node rp (Insert l point (depth + 1)) r axis
         else Node rp l (Insert r point (depth + 1)) axis)"

text \<open>The points stored in a tree, as a set and as a multiset, and the number of nodes.\<close>

fun points_of :: "'a Node \<Rightarrow> 'a Point set" where
  "points_of NilNode = {}"
| "points_of (Node p l r axis) = insert p (points_of l \<union> points_of r)"

fun points_mset :: "'a Node \<Rightarrow> 'a Point multiset" where
  "points_mset NilNode = {#}"
| "points_mset (Node p l r axis) = add_mset p (points_mset l + points_mset r)"

fun num_nodes :: "'a Node \<Rightarrow> nat" where
  "num_nodes NilNode = 0"
| "num_nodes (Node p l r axis) = Suc (num_nodes l + num_nodes r)"

text \<open>
  The ordering invariant of a subtree rooted at the given depth: the axis of a node is its
  depth modulo 2, every point of the left subtree is \<^verbatim>\<open><=\<close> the node on that axis and every
  point of the right subtree is \<^verbatim>\<open>>=\<close> the node, as Go compares \<^verbatim>\<open>float64\<close> values.
\<close>

fun kd_inv :: "nat \<Rightarrow> 'a Node \<Rightarrow> bool" where
  "kd_inv depth NilNode = True"
| "kd_inv depth (Node p l r axis) =
     (axis = depth mod 2 \<and>
      (\<forall>q \<in> points_of l. fle (coord axis q) (coord axis p)) \<and>
      (\<forall>q \<in> points_of r. fge (coord axis q) (coord axis p)) \<and>
      kd_inv (depth + 1) l \<and> kd_inv (depth + 1) r)"

text \<open>A point neither of whose coordinates is a NaN.\<close>

definition no_NaN :: "'a Point \<Rightarrow> bool" where
  "no_NaN p = (Lat p \<noteq> NaN \<and> Lon p \<noteq> NaN)"

text \<open>A sequence of \<^verbatim>\<open>root = Insert(root, p, 0)\<close> calls, as the tests build their trees.\<close>

fun InsertAll :: "'a Node \<Rightarrow> 'a Point list \<Rightarrow> 'a Node" where
  "InsertAll node [] = node"
| "InsertAll node (p # ps) = InsertAll (Insert node p 0) ps"

subsection \<open>Great-circle distance and range search\<close>

definition EarthRadiusKm :: float64 where
  "EarthRadiusKm = Fin 6371"

definition Haversine :: "float64 \<Rightarrow> float64 \<Rightarrow> float64 \<Rightarrow> float64 \<Rightarrow> float64" where
  "Haversine lat1 lon1 lat2 lon2 =
     (let dLat = fdiv (fmul (fsub lat2 lat1) math_Pi) (Fin 180);
          dLon = fdiv (fmul (fsub lon2 lon1) math_Pi) (Fin 180);
          a = fadd (fmul (Sin (fdiv dLat (Fin 2))) (Sin (fdiv dLat (Fin 2))))
                (fmul (fmul (fmul (Cos (fdiv (fmul lat1 math_Pi) (Fin 180)))
                                  (Cos (fdiv (fmul lat2 math_Pi) (Fin 180))))
                            (Sin (fdiv dLon (Fin 2))))
                      (Sin (fdiv dLon (Fin 2))));
          c = fmul (Fin 2) (Atan2 (Sqrt a) (Sqrt (fsub (Fin 1) a)))
      in fmul EarthRadiusKm c)"

text \<open>
  The half-width of the search window on one axis, in degrees. The factor
  \<^verbatim>\<open>(180.0 / math.Pi)\<close> is a constant expression. At the poles the argument of the cosine is
  half of \<^const>\<open>math_Pi\<close>, where the cosine is about \<^verbatim>\<open>6e-17\<close> and not zero, so that the
  window for longitudes is more than \<^verbatim>\<open>1e14\<close> degrees per kilometre of radius.
\<close>

definition coordDegrees :: "float64 \<Rightarrow> float64 \<Rightarrow> nat \<Rightarrow> float64" where
  "coordDegrees radiusKm lat cd =
     (let rad = fmul (fdiv radiusKm EarthRadiusKm) (Fin (180 / pi))
      in if cd = 0 then rad else fdiv rad (Cos (fdiv (fmul lat math_Pi) (Fin 180))))"

text \<open>
  \<^verbatim>\<open>SearchRange\<close> appends to the slice behind \<^verbatim>\<open>results\<close>: the node itself when it is within
  the radius, then what the left subtree yields, then the right subtree; a subtree is
  visited only when the window test on the axis of the current depth lets it through.
\<close>

fun SearchRange :: "'a Node \<Rightarrow> 'a Point \<Rightarrow> float64 \<Rightarrow> nat \<Rightarrow> 'a Point list \<Rightarrow> 'a Point list" where
  "SearchRange NilNode query radiusKm depth results = results"
| "SearchRange (Node p l r axis) query radiusKm depth results =
     (let distance = Haversine (Lat query) (Lon query) (Lat p) (Lon p);
          results1 = (if fle distance radiusKm then results @ [p] else results);
          cd = depth mod 2;
          queryCoord = (if cd = 0 then Lat query else Lon query);
          nodeCoord = (if cd = 0 then Lat p else Lon p);
          delta = coordDegrees radiusKm (Lat query) cd;
          results2 = (if fle (fsub queryCoord delta) nodeCoord
                      then SearchRange l query radiusKm (depth + 1) results1 else results1)
      in if fge (fadd queryCoord delta) nodeCoord
         then SearchRange r query radiusKm (depth + 1) results2 else results2)"

section \<open>Disjoint-set forest\<close>

text \<open>
  The Go struct \<^verbatim>\<open>UnionFind[T comparable]\<close> holds four maps keyed by \<^verbatim>\<open>T\<close> and a counter.
  A Go map is a finite partial function; reading a key that is absent does not fail but
  yields the zero value of the value type. For \<^verbatim>\<open>rank\<close>, \<^verbatim>\<open>size\<close> and
  \<^verbatim>\<open>isPreferredParent\<close> that is \<open>0\<close> and \<open>False\<close>; for \<^verbatim>\<open>parent\<close> it is the zero value of
  the type parameter \<^verbatim>\<open>T\<close> itself, which the instantiation of the generic type fixes (the
  empty string for \<^verbatim>\<open>UnionFind[string]\<close>, the only instantiation in the repository). The
  field \<open>zeroT\<close> records that value. Go's \<^verbatim>\<open>int\<close> counters are modelled as unbounded
  integers: they are bounded by the number of \<^verbatim>\<open>InitKey\<close> calls.
\<close>

record 'a UnionFind =
  zeroT :: 'a
  parent :: "'a \<rightharpoonup> 'a"
  rank :: "'a \<rightharpoonup> int"
  size_m :: "'a \<rightharpoonup> int"
  numSets :: int
  isPreferredParent :: "'a \<rightharpoonup> bool"

text \<open>The map reads \<^verbatim>\<open>uf.parent[k]\<close>, \<^verbatim>\<open>uf.rank[k]\<close>, \<^verbatim>\<open>uf.size[k]\<close>, \<^verbatim>\<open>uf.isPreferredParent[k]\<close>.\<close>

definition parent_at :: "'a UnionFind \<Rightarrow> 'a \<Rightarrow> 'a" where
  "parent_at uf k = (case parent uf k of Some p \<Rightarrow> p | None \<Rightarrow> zeroT uf)"

definition rank_at :: "'a UnionFind \<Rightarrow> 'a \<Rightarrow> int" where
  "rank_at uf k = (case rank uf k of Some n \<Rightarrow> n | None \<Rightarrow> 0)"

definition size_at :: "'a UnionFind \<Rightarrow> 'a \<Rightarrow> int" where
  "size_at uf k = (case size_m uf k of Some n \<Rightarrow> n | None \<Rightarrow> 0)"

definition preferred_at :: "'a UnionFind \<Rightarrow> 'a \<Rightarrow> bool" where
  "preferred_at uf k = (case isPreferredParent uf k of Some b \<Rightarrow> b | None \<Rightarrow> False)"

definition NewUnionFind :: "'a \<Rightarrow> 'a UnionFind" where
  "NewUnionFind z =
     \<lparr>zeroT = z, parent = Map.empty, rank = Map.empty, size_m = Map.empty, numSets = 0,
      isPreferredParent = Map.empty\<rparr>"

definition InitKey :: "'a UnionFind \<Rightarrow> 'a \<Rightarrow> 'a UnionFind" where
  "InitKey uf k =
     uf\<lparr>parent := (parent uf)(k \<mapsto> k), rank := (rank uf)(k \<mapsto> 0),
        size_m := (size_m uf)(k \<mapsto> 1), numSets := numSets uf + 1\<rparr>"

definition MarkAsParent :: "'a UnionFind \<Rightarrow> 'a \<Rightarrow> 'a UnionFind" where
  "MarkAsParent uf key = uf\<lparr>isPreferredParent := (isPreferredParent uf)(key \<mapsto> True)\<rparr>"

text \<open>
  \<^verbatim>\<open>FindSet\<close> recurses along the parent links and rewrites the link of every key on the way
  to the value the recursive call returned. It returns the forest it has updated together
  with the result. On a cyclic parent map the Go recursion does not return; that is the
  value \<open>None\<close> here.
\<close>

partial_function (option) FindSet :: "'a UnionFind \<Rightarrow> 'a \<Rightarrow> ('a \<times> 'a UnionFind) option" where
  "FindSet uf i =
     (if parent_at uf i \<noteq> i then
        do {
          (r, uf1) \<leftarrow> FindSet uf (parent_at uf i);
          let uf2 = uf1\<lparr>parent := (parent uf1)(i \<mapsto> r)\<rparr>;
          Some (parent_at uf2 i, uf2)
        }
      else Some (parent_at uf i, uf))"

definition IsSameSet :: "'a UnionFind \<Rightarrow> 'a \<Rightarrow> 'a \<Rightarrow> (bool \<times> 'a UnionFind) option" where
  "IsSameSet uf i j =
     do {
       (ri, uf1) \<leftarrow> FindSet uf i;
       (rj, uf2) \<leftarrow> FindSet uf1 j;
       Some (ri = rj, uf2)
     }"

definition UnionSet :: "'a UnionFind \<Rightarrow> 'a \<Rightarrow> 'a \<Rightarrow> 'a UnionFind option" where
  "UnionSet uf x y =
     do {
       (xRoot, uf1) \<leftarrow> FindSet uf x;
       (yRoot, uf2) \<leftarrow> FindSet uf1 y;
       if xRoot = yRoot then Some uf2
       else
         let uf3 = uf2\<lparr>numSets := numSets uf2 - 1\<rparr> in
         if preferred_at uf3 xRoot \<and> \<not> preferred_at uf3 yRoot then
           Some (uf3\<lparr>parent := (parent uf3)(yRoot \<mapsto> xRoot),
                     size_m := (size_m uf3)(xRoot \<mapsto> size_at uf3 xRoot + size_at uf3 yRoot)\<rparr>)
         else if preferred_at uf3 yRoot \<and> \<not> preferred_at uf3 xRoot then
           Some (uf3\<lparr>parent := (parent uf3)(xRoot \<mapsto> yRoot),
                     size_m := (size_m uf3)(yRoot \<mapsto> size_at uf3 yRoot + size_at uf3 xRoot)\<rparr>)
         else if rank_at uf3 xRoot > rank_at uf3 yRoot then
           Some (uf3\<lparr>parent := (parent uf3)(yRoot \<mapsto> xRoot),
                     size_m := (size_m uf3)(xRoot \<mapsto> size_at uf3 xRoot + size_at uf3 yRoot)\<rparr>)
         else
           let uf4 = uf3\<lparr>parent := (parent uf3)(xRoot \<mapsto> yRoot),
                         size_m := (size_m uf3)(yRoot \<mapsto> size_at uf3 yRoot + size_at uf3 xRoot)\<rparr>
           in if rank_at uf4 xRoot = rank_at uf4 yRoot
              then Some (uf4\<lparr>rank := (rank uf4)(yRoot \<mapsto> rank_at uf4 yRoot + 1)\<rparr>)
              else Some uf4
     }"

definition NumDisjointSets :: "'a UnionFind \<Rightarrow> int" where
  "NumDisjointSets uf = numSets uf"

definition SizeOfSet :: "'a UnionFind \<Rightarrow> 'a \<Rightarrow> (int \<times> 'a UnionFind) option" where
  "SizeOfSet uf i = do { (r, uf1) \<leftarrow> FindSet uf i; Some (size_at uf1 r, uf1) }"

text \<open>
  \<^verbatim>\<open>Apply\<close> ranges over the keys of \<^verbatim>\<open>uf.parent\<close>. Go leaves the order of a map range
  unspecified, so the order is a parameter: the list of keys as the range visits them. The
  callback works on a state of the caller's and may fail (a nil dereference in the Go
  closure), which ends the run.
\<close>

fun Apply ::
  "'a UnionFind \<Rightarrow> 'a list \<Rightarrow> ('a \<Rightarrow> 'a \<Rightarrow> 's \<Rightarrow> 's option) \<Rightarrow> 's \<Rightarrow> ('a UnionFind \<times> 's) option"
where
  "Apply uf [] f s = Some (uf, s)"
| "Apply uf (key # keys) f s =
     do {
       (root_key, uf1) \<leftarrow> FindSet uf key;
       s1 \<leftarrow> f key root_key s;
       Apply uf1 keys f s1
     }"

subsection \<open>Call sequences and the notions the claims speak of\<close>

text \<open>Registering a list of ids, and a sequence of \<^verbatim>\<open>UnionSet\<close> calls.\<close>

fun InitKeys :: "'a UnionFind \<Rightarrow> 'a list \<Rightarrow> 'a UnionFind" where
  "InitKeys uf [] = uf"
| "InitKeys uf (k # ks) = InitKeys (InitKey uf k) ks"

fun UnionAll :: "'a UnionFind \<Rightarrow> ('a \<times> 'a) list \<Rightarrow> 'a UnionFind option" where
  "UnionAll uf [] = Some uf"
| "UnionAll uf ((x, y) # ps) = do { uf1 \<leftarrow> UnionSet uf x y; UnionAll uf1 ps }"

text \<open>
  \<open>root_path m k r\<close>: following the parent links of the registered key \<open>k\<close> ends, after
  finitely many steps, in the root \<open>r\<close> (a key that is its own parent).
\<close>

inductive root_path :: "('a \<rightharpoonup> 'a) \<Rightarrow> 'a \<Rightarrow> 'a \<Rightarrow> bool" for m :: "'a \<rightharpoonup> 'a" where
  at_root: "m k = Some k \<Longrightarrow> root_path m k k"
| via_parent: "m k = Some p \<Longrightarrow> p \<noteq> k \<Longrightarrow> root_path m p r \<Longrightarrow> root_path m k r"

text \<open>A well-formed forest: every registered key has a root.\<close>

definition uf_inv :: "'a UnionFind \<Rightarrow> bool" where
  "uf_inv uf = (\<forall>k \<in> dom (parent uf). \<exists>r. root_path (parent uf) k r)"

definition same_root :: "'a UnionFind \<Rightarrow> 'a \<Rightarrow> 'a \<Rightarrow> bool" where
  "same_root uf a b = (\<exists>r. root_path (parent uf) a r \<and> root_path (parent uf) b r)"

text \<open>The reflexive-symmetric-transitive closure of a set of pairs.\<close>

definition connected :: "('a \<times> 'a) set \<Rightarrow> ('a \<times> 'a) set" where
  "connected R = (R \<union> R\<inverse>)\<^sup>*"

text \<open>
  The root that the branches of \<^verbatim>\<open>UnionSet\<close> keep when the two roots differ: the flagged one
  if exactly one is flagged, else the one of higher rank, else \<^verbatim>\<open>yRoot\<close>.
\<close>

definition survivor :: "'a UnionFind \<Rightarrow> 'a \<Rightarrow> 'a \<Rightarrow> 'a" where
  "survivor uf xRoot yRoot =
     (if preferred_at uf xRoot \<and> \<not> preferred_at uf yRoot then xRoot
      else if preferred_at uf yRoot \<and> \<not> preferred_at uf xRoot then yRoot
      else if rank_at uf xRoot > rank_at uf yRoot then xRoot
      else yRoot)"

text \<open>
  A sequence of \<^verbatim>\<open>UnionSet\<close> calls in which every call that joins the set of root \<open>r\<close> with
  another set finds the root of that other set unflagged.
\<close>

fun merges_unflagged :: "'a UnionFind \<Rightarrow> 'a \<Rightarrow> ('a \<times> 'a) list \<Rightarrow> bool" where
  "merges_unflagged uf r [] = True"
| "merges_unflagged uf r ((x, y) # ps) =
     (case FindSet uf x of
        None \<Rightarrow> False
      | Some (xRoot, uf1) \<Rightarrow>
          (case FindSet uf1 y of
             None \<Rightarrow> False
           | Some (yRoot, uf2) \<Rightarrow>
               (if xRoot = r \<and> yRoot \<noteq> r then \<not> preferred_at uf yRoot
                else if yRoot = r \<and> xRoot \<noteq> r then \<not> preferred_at uf xRoot
                else True) \<and>
               (case UnionSet uf x y of
                  None \<Rightarrow> False
                | Some uf' \<Rightarrow> merges_unflagged uf' r ps)))"

section \<open>Name normalisation and similarity\<close>

text \<open>
  A Go string is a sequence of bytes, here a \<^typ>\<open>string\<close>. \<^verbatim>\<open>normalize\<close> first calls
  \<^verbatim>\<open>unidecode.Unidecode\<close> (a library outside the repository, a parameter of the model), whose
  result is ASCII, so the later steps are modelled on bytes: \<^verbatim>\<open>strings.ToLower\<close> maps
  \<open>A\<close>--\<open>Z\<close> to \<open>a\<close>--\<open>z\<close>, the classes \<^verbatim>\<open>\w\<close> and \<^verbatim>\<open>\s\<close> of Go's \<^verbatim>\<open>regexp\<close> are the
  ASCII ones, and \<^verbatim>\<open>strings.Fields\<close> splits at ASCII white space.
\<close>

definition is_word_char :: "char \<Rightarrow> bool" where
  "is_word_char c \<longleftrightarrow>
     c \<in> set ''0123456789ABCDEFGHIJKLMNOPQRSTUVWXYZ_abcdefghijklmnopqrstuvwxyz''"

text \<open>\<^verbatim>\<open>\s\<close> is \<^verbatim>\<open>[\t\n\f\r ]\<close>; \<^verbatim>\<open>unicode.IsSpace\<close> has the vertical tab as well.\<close>

definition is_space_re :: "char \<Rightarrow> bool" where
  "is_space_re c \<longleftrightarrow> c \<in> set [CHR 0x09, CHR 0x0A, CHR 0x0C, CHR 0x0D, CHR '' '']"

definition is_space_fields :: "char \<Rightarrow> bool" where
  "is_space_fields c \<longleftrightarrow> c \<in> set [CHR 0x09, CHR 0x0A, CHR 0x0B, CHR 0x0C, CHR 0x0D, CHR '' '']"

definition ToLower :: "string \<Rightarrow> string" where
  "ToLower s =
     map (\<lambda>c. case map_of (zip ''ABCDEFGHIJKLMNOPQRSTUVWXYZ'' ''abcdefghijklmnopqrstuvwxyz'') c of
                  Some l \<Rightarrow> l | None \<Rightarrow> c) s"

text \<open>\<^verbatim>\<open>strings.ReplaceAll(s, old, new)\<close> for a non-empty \<open>old\<close>: left to right, no overlaps.\<close>

fun ReplaceAll :: "string \<Rightarrow> string \<Rightarrow> string \<Rightarrow> string" where
  "ReplaceAll [] old new = []"
| "ReplaceAll (x # xs) old new =
     (if old \<noteq> [] \<and> take (length old) (x # xs) = old
      then new @ ReplaceAll (drop (length old) (x # xs)) old new
      else x # ReplaceAll xs old new)"

text \<open>\<^verbatim>\<open>strings.Fields\<close>: the maximal runs of characters that are not white space.\<close>

function Fields :: "string \<Rightarrow> string list" where
  "Fields [] = []"
| "Fields (x # xs) =
     (if is_space_fields x then Fields xs
      else takeWhile (\<lambda>c. \<not> is_space_fields c) (x # xs) #
           Fields (dropWhile (\<lambda>c. \<not> is_space_fields c) xs))"
  by pat_completeness auto
termination
  by (relation "measure length") (auto simp: length_dropWhile_le less_Suc_eq_le)

fun Join :: "string list \<Rightarrow> string \<Rightarrow> string" where
  "Join [] sep = []"
| "Join [w] sep = w"
| "Join (w # ws) sep = w @ sep @ Join ws sep"

subsection \<open>The regular expressions of \<^verbatim>\<open>normalize\<close>\<close>

text \<open>
  The five patterns are concatenations of: a literal, one character of a class, a greedy
  star or a greedy option of a class, the word boundary \<^verbatim>\<open>\b\<close>, and an alternation of
  literals. Go's \<^verbatim>\<open>regexp\<close> returns the leftmost match and, among those, the one a
  backtracking search finds first; \<open>rx_match\<close> is that search at one position. It is given
  the character before the position (for \<^verbatim>\<open>\b\<close>) and returns what is left of the input
  after the match.
\<close>

datatype rx =
  Lit string
| Cls "char \<Rightarrow> bool"
| Star "char \<Rightarrow> bool"
| Opt "char \<Rightarrow> bool"
| WordB
| Alt "string list"

definition at_word_boundary :: "char option \<Rightarrow> string \<Rightarrow> bool" where
  "at_word_boundary prev s \<longleftrightarrow>
     (case prev of None \<Rightarrow> False | Some c \<Rightarrow> is_word_char c) \<noteq>
     (case s of [] \<Rightarrow> False | c # _ \<Rightarrow> is_word_char c)"

fun first_match :: "'a option list \<Rightarrow> 'a option" where
  "first_match [] = None"
| "first_match (None # rs) = first_match rs"
| "first_match (Some r # rs) = Some r"

fun rx_match :: "rx list \<Rightarrow> char option \<Rightarrow> string \<Rightarrow> string option" where
  "rx_match [] prev s = Some s"
| "rx_match (Lit w # rs) prev s =
     (if take (length w) s = w
      then rx_match rs (if w = [] then prev else Some (last w)) (drop (length w) s)
      else None)"
| "rx_match (Cls c # rs) prev s =
     (case s of [] \<Rightarrow> None | x # xs \<Rightarrow> if c x then rx_match rs (Some x) xs else None)"
| "rx_match (Star c # rs) prev s =
     (case s of
        [] \<Rightarrow> rx_match rs prev []
      | x # xs \<Rightarrow>
          if c x
          then (case rx_match (Star c # rs) (Some x) xs of
                  Some t \<Rightarrow> Some t
                | None \<Rightarrow> rx_match rs prev (x # xs))
          else rx_match rs prev (x # xs))"
| "rx_match (Opt c # rs) prev s =
     (case s of
        [] \<Rightarrow> rx_match rs prev []
      | x # xs \<Rightarrow>
          if c x
          then (case rx_match rs (Some x) xs of
                  Some t \<Rightarrow> Some t
                | None \<Rightarrow> rx_match rs prev (x # xs))
          else rx_match rs prev (x # xs))"
| "rx_match (WordB # rs) prev s =
     (if at_word_boundary prev s then rx_match rs prev s else None)"
| "rx_match (Alt ws # rs) prev s =
     first_match
       (map (\<lambda>w. if take (length w) s = w
                 then rx_match rs (if w = [] then prev else Some (last w)) (drop (length w) s)
                 else None) ws)"

text \<open>
  \<^verbatim>\<open>re.ReplaceAllString(s, "")\<close>: scan from the left; where the pattern matches a non-empty
  piece, drop it and go on behind it; else keep the character. (An empty match is replaced
  by the empty string, which changes nothing.)
\<close>

fun RemoveAll :: "rx list \<Rightarrow> char option \<Rightarrow> string \<Rightarrow> string" where
  "RemoveAll re prev [] = []"
| "RemoveAll re prev (x # xs) =
     (case rx_match re prev (x # xs) of
        None \<Rightarrow> x # RemoveAll re (Some x) xs
      | Some t \<Rightarrow>
          if length t < length (x # xs)
          then RemoveAll re (Some ((x # xs) ! (length (x # xs) - length t - 1))) t
          else x # RemoveAll re (Some x) xs)"

text \<open>\<^verbatim>\<open>\s*\([^)]*\)\<close>\<close>

definition re_parenthetical :: "rx list" where
  "re_parenthetical =
     [Star is_space_re, Lit ''('', Star (\<lambda>c. c \<noteq> CHR '')''), Lit '')'']"

text \<open>\<^verbatim>\<open>[^\w\s]\<close>\<close>

definition re_punctuation :: "rx list" where
  "re_punctuation = [Cls (\<lambda>c. \<not> is_word_char c \<and> \<not> is_space_re c)]"

text \<open>\<^verbatim>\<open>\b(bussteig|gleis|bahnsteig|bus|zug)\b\<close>\<close>

definition re_platform :: "rx list" where
  "re_platform = [WordB, Alt [''bussteig'', ''gleis'', ''bahnsteig'', ''bus'', ''zug''], WordB]"

text \<open>\<^verbatim>\<open>\b(db|mvv|vrr|rmv|bvg|sbb|oebb|sncf|trenitalia)\b\<close>\<close>

definition re_operator :: "rx list" where
  "re_operator =
     [WordB,
      Alt [''db'', ''mvv'', ''vrr'', ''rmv'', ''bvg'', ''sbb'', ''oebb'', ''sncf'', ''trenitalia''],
      WordB]"

text \<open>\<^verbatim>\<open>\b(s\+u|s|u|rb|re|tram|bus|bhf)\b[ \.]?\<close>\<close>

definition re_transport :: "rx list" where
  "re_transport =
     [WordB, Alt [''s+u'', ''s'', ''u'', ''rb'', ''re'', ''tram'', ''bus'', ''bhf''], WordB,
      Opt (\<lambda>c. c = CHR '' '' \<or> c = CHR ''.'')]"

text \<open>The table \<^verbatim>\<open>replacements\<close>, in the order of the source text.\<close>

definition replacements :: "(string \<times> string) list" where
  "replacements =
     [('' hauptbahnhof'', '' hbf''),
      ('' bahnhof'', '' bf''),
      (''hauptbahnhof '', ''hbf ''),
      (''bahnhof '', ''bf ''),
      (''strasse'', ''str''),
      (''platz'', ''pl''),
      ('' station'', '' stn''),
      ('' street'', '' st''),
      ('' avenue'', '' ave''),
      ('' boulevard'', '' blvd''),
      ('' road'', '' rd''),
      ('' drive'', '' dr''),
      ('' court'', '' ct''),
      ('' square'', '' sq''),
      ('' parkway'', '' pkwy''),
      ('' highway'', '' hwy''),
      ('' circle'', '' cir''),
      ('' lane'', '' ln''),
      ('' place'', '' pl''),
      ('' terrace'', '' ter''),
      ('' expressway'', '' expy''),
      ('' junction'', '' jct''),
      ('' intersection'', '' int''),
      ('' terminal'', '' term''),
      ('' airport'', '' apt''),
      ('' downtown'', '' dtwn''),
      ('' ferry'', '' fry'')]"

text \<open>
  \<^verbatim>\<open>for k, v := range replacements { name = strings.ReplaceAll(name, k, v) }\<close>: the table is
  a Go map, and the order in which a range visits a map is not specified. The order of one
  execution of the loop is a parameter: the list of the entries as the range visits them,
  a permutation of \<^const>\<open>replacements\<close>.
\<close>

fun apply_replacements :: "(string \<times> string) list \<Rightarrow> string \<Rightarrow> string" where
  "apply_replacements [] name = name"
| "apply_replacements ((k, v) # kvs) name = apply_replacements kvs (ReplaceAll name k v)"

definition normalize :: "(string \<Rightarrow> string) \<Rightarrow> (string \<times> string) list \<Rightarrow> string \<Rightarrow> string" where
  "normalize Unidecode range_order name =
     (let name = Unidecode name;
          name = ToLower name;
          name = RemoveAll re_parenthetical None name;
          name = ReplaceAll name ''-'' '' '';
          name = RemoveAll re_punctuation None name;
          name = RemoveAll re_platform None name;
          name = RemoveAll re_operator None name;
          name = Join (Fields name) '' '';
          name = apply_replacements range_order name;
          name = RemoveAll re_transport None name;
          name = Join (Fields name) '' ''
      in name)"

definition TOL_IS_SAME :: int where
  "TOL_IS_SAME = 85"

definition radiusKm :: float64 where
  "radiusKm = Fin 0.5"

text \<open>
  \<^verbatim>\<open>ConsiderSame\<close> normalises both names (each call ranges over the table in an order of its
  own) and compares \<^verbatim>\<open>fuzzy.Ratio\<close>, a library outside the repository and a parameter here,
  with the threshold.
\<close>

definition ConsiderSame ::
  "(string \<Rightarrow> string) \<Rightarrow> (string \<Rightarrow> string \<Rightarrow> int) \<Rightarrow> (string \<times> string) list \<Rightarrow>
   (string \<times> string) list \<Rightarrow> string \<Rightarrow> string \<Rightarrow> int \<Rightarrow> bool" where
  "ConsiderSame Unidecode Ratio order_left order_right left right threshold =
     (let similarity = Ratio (normalize Unidecode order_left left)
                             (normalize Unidecode order_right right)
      in similarity \<ge> threshold)"

section \<open>The pass over the feed: \<^verbatim>\<open>ExtendParentStops.Run\<close>\<close>

text \<open>
  The fields of \<^verbatim>\<open>gtfs.Stop\<close> that the pass reads or writes. A \<^verbatim>\<open>*gtfs.Stop\<close> is represented
  by the id of the stop it points to: in a parsed feed every stop is stored in
  \<^verbatim>\<open>feed.Stops\<close> under its own id, and a parent reference points to a stop of the feed. So
  \<open>Parent_station = Some p\<close> is a pointer to the stop with id \<open>p\<close>, and \<open>None\<close> is nil.
  \<^verbatim>\<open>feed.Stops\<close> is a map from ids to stops. The coordinates of a stop are \<^verbatim>\<open>float32\<close>
  values, which the conversion \<^verbatim>\<open>float64(s.Lat)\<close> leaves as they are, NaN included; they are
  kept as \<^typ>\<open>float64\<close> here.
\<close>

record Stop =
  Id_stop :: string
  Name :: string
  Lat_stop :: float64
  Lon_stop :: float64
  Location_type :: int
  Parent_station :: "string option"
  Timezone :: string

type_synonym Stops = "string \<rightharpoonup> Stop"

definition createParentStopFrom :: "Stop \<Rightarrow> string \<Rightarrow> Stop" where
  "createParentStopFrom orig new_id =
     \<lparr>Id_stop = new_id, Name = Name orig, Lat_stop = Lat_stop orig, Lon_stop = Lon_stop orig,
      Location_type = 1, Parent_station = None, Timezone = Timezone orig\<rparr>"

text \<open>
  What the pass takes from outside the repository, and the choices Go leaves open: the two
  library functions, the order in which each \<^verbatim>\<open>range\<close> over the replacement table visits
  it (one order per call of \<^verbatim>\<open>normalize\<close>: for \<^verbatim>\<open>norm\<close> by the id of the stop, for the three
  calls made for a pair of stops by the two ids), the order of each of the five ranges over
  \<^verbatim>\<open>feed.Stops\<close> (numbered 1 to 5 as they stand in the source) and of the range over
  \<^verbatim>\<open>uf.parent\<close> in \<^verbatim>\<open>Apply\<close>.
\<close>

record env =
  Unidecode :: "string \<Rightarrow> string"
  Ratio :: "string \<Rightarrow> string \<Rightarrow> int"
  norm_order :: "string \<Rightarrow> (string \<times> string) list"
  other_order :: "string \<Rightarrow> string \<Rightarrow> (string \<times> string) list"
  left_order :: "string \<Rightarrow> string \<Rightarrow> (string \<times> string) list"
  right_order :: "string \<Rightarrow> string \<Rightarrow> (string \<times> string) list"
  stops_range :: "nat \<Rightarrow> string list"
  parent_range :: "string list"

text \<open>
  Modelled from the spec: \<^verbatim>\<open>BuildKDTreeParallelLimited\<close> is called by \<^verbatim>\<open>Run\<close> but is not among
  the source files. The spec requires of a parallel build that it produce the index of the
  same median-selection rule regardless of the number of workers, which is the tree of
  \<^const>\<open>BuildKDTree\<close>.
\<close>

definition BuildKDTreeParallelLimited :: "'a Point list \<Rightarrow> nat \<Rightarrow> 'a Node" where
  "BuildKDTreeParallelLimited points depth = BuildKDTree points depth"

text \<open>
  First range: a point and a forest entry for every stop. The payload of a point is the
  stop; of it the pass reads the name and the id only, which it never changes.
\<close>

fun register_stops ::
  "Stops \<Rightarrow> string list \<Rightarrow> Stop Point list \<times> string UnionFind \<Rightarrow> Stop Point list \<times> string UnionFind"
where
  "register_stops stops [] (points, uf) = (points, uf)"
| "register_stops stops (k # ks) (points, uf) =
     (case stops k of
        None \<Rightarrow> register_stops stops ks (points, uf)
      | Some s \<Rightarrow>
          register_stops stops ks
            (points @ [\<lparr>Lat = Lat_stop s, Lon = Lon_stop s, Data = s\<rparr>], InitKey uf (Id_stop s)))"

text \<open>Second range: \<^verbatim>\<open>uf.UnionSet(s.Id, s.Parent_station.Id)\<close> for every stop with a parent.\<close>

fun seed_hierarchy :: "Stops \<Rightarrow> string list \<Rightarrow> string UnionFind \<Rightarrow> string UnionFind option" where
  "seed_hierarchy stops [] uf = Some uf"
| "seed_hierarchy stops (k # ks) uf =
     (case stops k of
        None \<Rightarrow> seed_hierarchy stops ks uf
      | Some s \<Rightarrow>
          (case Parent_station s of
             None \<Rightarrow> seed_hierarchy stops ks uf
           | Some pid \<Rightarrow> do { uf1 \<leftarrow> UnionSet uf (Id_stop s) pid; seed_hierarchy stops ks uf1 }))"

text \<open>Third range: the inner loop over the results of the range search, then the outer loop.\<close>

fun union_matches ::
  "env \<Rightarrow> Stop \<Rightarrow> string \<Rightarrow> Stop Point list \<Rightarrow> string UnionFind \<Rightarrow> string UnionFind option"
where
  "union_matches e s norm_s [] uf = Some uf"
| "union_matches e s norm_s (p # ps) uf =
     (let o_stop = Data p in
      if ConsiderSame (Unidecode e) (Ratio e)
           (left_order e (Id_stop s) (Id_stop o_stop)) (right_order e (Id_stop s) (Id_stop o_stop))
           norm_s
           (normalize (Unidecode e) (other_order e (Id_stop s) (Id_stop o_stop)) (Name o_stop))
           TOL_IS_SAME
      then do { uf1 \<leftarrow> UnionSet uf (Id_stop s) (Id_stop o_stop); union_matches e s norm_s ps uf1 }
      else union_matches e s norm_s ps uf)"

fun propose_unions ::
  "env \<Rightarrow> Stops \<Rightarrow> Stop Node \<Rightarrow> string list \<Rightarrow> string UnionFind \<Rightarrow> string UnionFind option"
where
  "propose_unions e stops tree [] uf = Some uf"
| "propose_unions e stops tree (k # ks) uf =
     (case stops k of
        None \<Rightarrow> propose_unions e stops tree ks uf
      | Some s \<Rightarrow>
          (let query = \<lparr>Lat = Lat_stop s, Lon = Lon_stop s, Data = s\<rparr>;
               results = SearchRange tree query radiusKm 0 [];
               norm_s = normalize (Unidecode e) (norm_order e (Id_stop s)) (Name s)
           in do {
                uf1 \<leftarrow> union_matches e s norm_s results uf;
                propose_unions e stops tree ks uf1
              }))"

text \<open>\<^verbatim>\<open>stop.Parent_station = feed.Stops[parID]\<close>, for the stop stored under \<open>k\<close>.\<close>

definition set_parent :: "Stops \<Rightarrow> string \<Rightarrow> Stop \<Rightarrow> string \<Rightarrow> Stops" where
  "set_parent stops k stop parID =
     stops(k \<mapsto> stop\<lparr>Parent_station := (case stops parID of None \<Rightarrow> None | Some _ \<Rightarrow> Some parID)\<rparr>)"

text \<open>
  Fourth range: every existing parent reference is redirected to the \<^verbatim>\<open>"par::"\<close> record of
  the parent's id, created from the \<^emph>\<open>child\<close> when it does not exist yet. (A record that the
  loop itself has created may or may not be visited by the range; it has no parent, so the
  body does nothing for it.)
\<close>

fun remap_parents :: "string list \<Rightarrow> Stops \<Rightarrow> Stops" where
  "remap_parents [] stops = stops"
| "remap_parents (k # ks) stops =
     (case stops k of
        None \<Rightarrow> remap_parents ks stops
      | Some stop \<Rightarrow>
          (case Parent_station stop of
             None \<Rightarrow> remap_parents ks stops
           | Some pid \<Rightarrow>
               (let parID = ''par::'' @ pid;
                    stops1 = (if stops parID = None
                              then stops(parID \<mapsto> createParentStopFrom stop parID) else stops)
                in remap_parents ks (set_parent stops1 k stop parID))))"

text \<open>
  The closure passed to \<^verbatim>\<open>uf.Apply\<close>. \<^verbatim>\<open>feed.Stops[key]\<close> and \<^verbatim>\<open>feed.Stops[parent]\<close> are nil
  for a missing key, and the closure dereferences them: that panic is \<open>None\<close>.
\<close>

definition canonical_parent :: "string \<Rightarrow> string \<Rightarrow> Stops \<Rightarrow> Stops option" where
  "canonical_parent key root_key stops =
     (let parID = ''par::'' @ root_key in
      case stops parID of
        None \<Rightarrow>
          (case stops root_key of
             None \<Rightarrow> None
           | Some orig \<Rightarrow>
               (case stops key of
                  None \<Rightarrow> None
                | Some stop \<Rightarrow>
                    Some (set_parent (stops(parID \<mapsto> createParentStopFrom orig parID)) key stop parID)))
      | Some _ \<Rightarrow>
          (case stops key of
             None \<Rightarrow> None
           | Some stop \<Rightarrow> Some (set_parent stops key stop parID)))"

text \<open>Fifth range: a stop of location type 0 that still has no parent gets one of its own.\<close>

fun backfill :: "string list \<Rightarrow> Stops \<Rightarrow> Stops" where
  "backfill [] stops = stops"
| "backfill (k # ks) stops =
     (case stops k of
        None \<Rightarrow> backfill ks stops
      | Some stop \<Rightarrow>
          if Location_type stop = 0 \<and> Parent_station stop = None
          then (let parID = ''par::'' @ Id_stop stop;
                    stops1 = (if stops parID = None
                              then stops(parID \<mapsto> createParentStopFrom stop parID) else stops)
                in backfill ks (set_parent stops1 k stop parID))
          else backfill ks stops)"

text \<open>
  The pass. It returns the feed's stops and the two numbers that the final message is
  computed from, \<^verbatim>\<open>prev\<close> and \<^verbatim>\<open>after\<close>; \<open>None\<close> when the pass does not complete.
\<close>

definition Run :: "env \<Rightarrow> Stops \<Rightarrow> (Stops \<times> int \<times> int) option" where
  "Run e stops =
     (let uf = NewUnionFind '''';
          (points, uf) = register_stops stops (stops_range e 1) ([], uf);
          tree = BuildKDTreeParallelLimited points 0
      in do {
           uf \<leftarrow> seed_hierarchy stops (stops_range e 2) uf;
           let prev = NumDisjointSets uf;
           uf \<leftarrow> propose_unions e stops tree (stops_range e 3) uf;
           let stops = remap_parents (stops_range e 4) stops;
           (uf, stops) \<leftarrow> Apply uf (parent_range e) canonical_parent stops;
           let stops = backfill (stops_range e 5) stops;
           let after = NumDisjointSets uf;
           Some (stops, prev, after)
         })"

subsection \<open>Well-formed feeds and admissible range orders\<close>

text \<open>
  A parsed feed: finitely many stops, each stored under its own id, each parent reference
  pointing to a stop of the feed.
\<close>

definition wf_feed :: "Stops \<Rightarrow> bool" where
  "wf_feed stops \<longleftrightarrow>
     finite (dom stops) \<and>
     (\<forall>k s. stops k = Some s \<longrightarrow>
        Id_stop s = k \<and> (\<forall>p. Parent_station s = Some p \<longrightarrow> p \<in> dom stops))"

text \<open>
  The first three ranges and the range of \<^verbatim>\<open>Apply\<close> visit every stop of the feed exactly
  once (the feed's keys are the forest's keys). During the fourth and the fifth range the
  map grows, and Go may or may not visit the new entries: of the fourth range it is only
  asked that it visit no key twice, and nothing is asked of the fifth.
\<close>

definition ranges_ok :: "env \<Rightarrow> Stops \<Rightarrow> bool" where
  "ranges_ok e stops \<longleftrightarrow>
     (\<forall>n \<in> {1, 2, 3}. distinct (stops_range e n) \<and> set (stops_range e n) = dom stops) \<and>
     distinct (stops_range e 4) \<and>
     distinct (parent_range e) \<and> set (parent_range e) = dom stops"

text \<open>The roots of a forest, which \<^verbatim>\<open>numSets\<close> is meant to count.\<close>

definition roots :: "'a UnionFind \<Rightarrow> 'a set" where
  "roots uf = {k. parent uf k = Some k}"

subsection \<open>Invariants of the pass\<close>

text \<open>
  The forest during the pass, for a feed with key set \<open>D\<close>: well-formed, over exactly the
  keys of the feed, with \<^verbatim>\<open>numSets\<close> the number of roots.
\<close>

definition forest_ok :: "string set \<Rightarrow> string UnionFind \<Rightarrow> bool" where
  "forest_ok D uf \<longleftrightarrow>
     uf_inv uf \<and> dom (parent uf) = D \<and> finite D \<and> numSets uf = int (card (roots uf))"

definition has_parent :: "Stops \<Rightarrow> string \<Rightarrow> bool" where
  "has_parent m k \<longleftrightarrow> (\<exists>s. m k = Some s \<and> Parent_station s \<noteq> None)"

definition parent_is :: "Stops \<Rightarrow> string \<Rightarrow> string \<Rightarrow> bool" where
  "parent_is m k p \<longleftrightarrow> (\<exists>s. m k = Some s \<and> Parent_station s = Some p)"

text \<open>
  The stops map \<open>m\<close> during the pass over the feed \<open>S0\<close>: every stop of the feed is still
  there, changed at most in its parent reference; every other record is a synthetic one
  (id \<^verbatim>\<open>"par::"\<close> followed by the id of a stop of the feed, stored under its id, location
  type 1, no parent); and every parent reference points to a record of the map.
\<close>

definition synth :: "Stops \<Rightarrow> Stops \<Rightarrow> bool" where
  "synth S0 m \<longleftrightarrow>
     (\<forall>k s. S0 k = Some s \<longrightarrow>
        (\<exists>s'. m k = Some s' \<and> s' = s\<lparr>Parent_station := Parent_station s'\<rparr>)) \<and>
     (\<forall>k s. k \<notin> dom S0 \<longrightarrow> m k = Some s \<longrightarrow>
        (\<exists>k0 \<in> dom S0. k = ''par::'' @ k0) \<and> Id_stop s = k \<and> Location_type s = 1 \<and>
        Parent_station s = None) \<and>
     (\<forall>k s p. m k = Some s \<longrightarrow> Parent_station s = Some p \<longrightarrow> p \<in> dom m)"

subsection \<open>Concrete feeds and range orders for the evaluated runs\<close>

text \<open>
  All stops of the feeds below have the same name and lie at the same place, so the only
  value of \<^verbatim>\<open>fuzzy.Ratio\<close> that the runs need is that of two equal, non-empty strings, which
  is 100. \<open>Ratio_equal\<close> stands for the library function there. \<^verbatim>\<open>Unidecode\<close> is the
  identity on the ASCII names used, and every range over the replacement table takes the
  order of the source text.
\<close>

definition Ratio_equal :: "string \<Rightarrow> string \<Rightarrow> int" where
  "Ratio_equal a b = (if a = b then 100 else 0)"

text \<open>
  \<open>example_env ks ks5\<close>: the first four ranges over \<^verbatim>\<open>feed.Stops\<close> and the range over
  \<^verbatim>\<open>uf.parent\<close> visit the keys in the order \<open>ks\<close>; the fifth range, which runs after the
  synthetic records have been added, visits \<open>ks5\<close>.
\<close>

definition example_env :: "string list \<Rightarrow> string list \<Rightarrow> env" where
  "example_env ks ks5 =
     \<lparr>Unidecode = (\<lambda>s. s), Ratio = Ratio_equal,
      norm_order = (\<lambda>_. replacements), other_order = (\<lambda>_ _. replacements),
      left_order = (\<lambda>_ _. replacements), right_order = (\<lambda>_ _. replacements),
      stops_range = (\<lambda>n. if n = 5 then ks5 else ks), parent_range = ks\<rparr>"

definition stop_at_origin :: "string \<Rightarrow> int \<Rightarrow> string option \<Rightarrow> Stop" where
  "stop_at_origin k lt p =
     \<lparr>Id_stop = k, Name = ''main'', Lat_stop = Fin 0, Lon_stop = Fin 0, Location_type = lt,
      Parent_station = p, Timezone = ''''\<rparr>"

text \<open>A stop \<open>A\<close> whose parent station \<open>P\<close> is in the feed.\<close>

definition feed_child_parent :: Stops where
  "feed_child_parent =
     [''A'' \<mapsto> stop_at_origin ''A'' 0 (Some ''P''), ''P'' \<mapsto> stop_at_origin ''P'' 1 None]"

text \<open>A single stop without a parent, and the feed that one pass makes of it.\<close>

definition feed_single :: Stops where
  "feed_single = [''A'' \<mapsto> stop_at_origin ''A'' 0 None]"

definition feed_processed :: Stops where
  "feed_processed =
     [''A'' \<mapsto> stop_at_origin ''A'' 0 (Some ''par::A''),
      ''par::A'' \<mapsto> stop_at_origin ''par::A'' 1 None]"

section \<open>Properties of the spatial index\<close>

lemma points_of_mset: "points_of t = set_mset (points_mset t)"
  by (induction t) auto

lemma num_nodes_mset: "num_nodes t = size (points_mset t)"
  by (induction t) auto

lemma points_mset_Insert: "points_mset (Insert t p d) = add_mset p (points_mset t)"
  by (induction t arbitrary: d) (auto simp: Let_def)

lemma points_of_Insert: "points_of (Insert t p d) = insert p (points_of t)"
  by (simp add: points_of_mset points_mset_Insert)

subsection \<open>Comparisons of numbers that are not NaN\<close>

lemma flt_fle: "flt a b \<Longrightarrow> fle a b"
  by (simp add: fle_def)

lemma not_flt_fle: "a \<noteq> NaN \<Longrightarrow> b \<noteq> NaN \<Longrightarrow> \<not> flt a b \<Longrightarrow> fle b a"
  by (cases a; cases b) (auto simp: fle_def)

lemma flt_trans: "flt a b \<Longrightarrow> flt b c \<Longrightarrow> flt a c"
  by (cases a; cases b; cases c) auto

lemma fle_trans: "fle a b \<Longrightarrow> fle b c \<Longrightarrow> fle a c"
  unfolding fle_def using flt_trans by blast

lemma coord_no_NaN: "no_NaN p \<Longrightarrow> coord axis p \<noteq> NaN"
  by (simp add: no_NaN_def coord_def)

subsection \<open>The stable sort\<close>

lemma mset_insertionStep: "mset (insertionStep lt rs x) = add_mset x (mset rs)"
  by (induction rs) auto

lemma set_insertionStep: "set (insertionStep lt rs x) = insert x (set rs)"
  by (metis mset_insertionStep set_mset_add_mset_insert set_mset_mset)

lemma mset_foldl_insertionStep:
  "mset (foldl (insertionStep lt) acc xs) = mset acc + mset xs"
  by (induction xs arbitrary: acc) (auto simp: mset_insertionStep)

lemma mset_SliceStable: "mset (SliceStable xs lt) = mset xs"
  by (simp add: SliceStable_def mset_foldl_insertionStep)

lemma length_SliceStable: "length (SliceStable xs lt) = length xs"
  by (metis mset_SliceStable size_mset)

lemma set_SliceStable: "set (SliceStable xs lt) = set xs"
  by (metis mset_SliceStable set_mset_mset)

lemma sorted_insertionStep:
  assumes "\<forall>y \<in> set rs. key y \<noteq> NaN" "key x \<noteq> NaN"
    and "sorted_wrt (\<lambda>a b. fle (key b) (key a)) rs"
  shows "sorted_wrt (\<lambda>a b. fle (key b) (key a))
           (insertionStep (\<lambda>p q. flt (key p) (key q)) rs x)"
  using assms
proof (induction rs)
  case Nil
  then show ?case by simp
next
  case (Cons y rs)
  show ?case
  proof (cases "flt (key x) (key y)")
    case True
    then show ?thesis using Cons by (auto simp: flt_fle set_insertionStep)
  next
    case False
    then have yx: "fle (key y) (key x)" using Cons.prems by (auto intro: not_flt_fle)
    then show ?thesis using False Cons.prems by (auto intro: fle_trans)
  qed
qed

lemma sorted_foldl_insertionStep:
  assumes "\<forall>y \<in> set acc \<union> set xs. key y \<noteq> NaN"
    and "sorted_wrt (\<lambda>a b. fle (key b) (key a)) acc"
  shows "sorted_wrt (\<lambda>a b. fle (key b) (key a))
           (foldl (insertionStep (\<lambda>p q. flt (key p) (key q))) acc xs)"
  using assms
proof (induction xs arbitrary: acc)
  case Nil
  then show ?case by simp
next
  case (Cons x xs)
  show ?case
    using Cons.prems by (auto intro!: Cons.IH sorted_insertionStep simp: set_insertionStep)
qed

lemma sorted_SliceStable:
  assumes "\<forall>y \<in> set xs. key y \<noteq> NaN"
  shows "sorted_wrt (\<lambda>a b. fle (key a) (key b)) (SliceStable xs (\<lambda>p q. flt (key p) (key q)))"
proof -
  have "sorted_wrt (\<lambda>a b. fle (key b) (key a))
          (foldl (insertionStep (\<lambda>p q. flt (key p) (key q))) [] xs)"
    using assms by (intro sorted_foldl_insertionStep) auto
  then show ?thesis by (simp add: SliceStable_def sorted_wrt_rev)
qed

lemma axis_less:
  "(\<lambda>p q. if axis = 0 then flt (Lat p) (Lat q) else flt (Lon p) (Lon q))
   = (\<lambda>p q. flt (coord axis p) (coord axis q))"
  by (auto simp: coord_def fun_eq_iff)

lemma sorted_take_le_nth:
  assumes "sorted_wrt (\<lambda>a b. fle (f a) (f b)) xs" "m < length xs" "q \<in> set (take m xs)"
  shows "fle (f q) (f (xs ! m))"
proof -
  from assms(3) obtain i where i: "i < m" "i < length xs" "q = xs ! i"
    by (auto simp: in_set_conv_nth)
  with assms(2) sorted_wrt_nth_less[OF assms(1), of i m] show ?thesis by simp
qed

lemma sorted_drop_ge_nth:
  assumes "sorted_wrt (\<lambda>a b. fle (f a) (f b)) xs" "m < length xs" "q \<in> set (drop (Suc m) xs)"
  shows "fge (f q) (f (xs ! m))"
proof -
  from assms(3) obtain i where "i < length xs - Suc m" "q = xs ! (Suc m + i)"
    by (auto simp: in_set_conv_nth)
  then have i: "Suc m + i < length xs" "q = xs ! (Suc m + i)"
    by auto
  with assms(1,2) have "fle (f (xs ! m)) (f (xs ! (Suc m + i)))"
    by (intro sorted_wrt_nth_less) auto
  with i show ?thesis by (simp add: fge_def)
qed

subsection \<open>Building and inserting\<close>

lemma Insert_coord:
  "Insert (Node rp l r axis) p d =
     (if flt (coord axis p) (coord axis rp) then Node rp (Insert l p (d + 1)) r axis
      else Node rp l (Insert r p (d + 1)) axis)"
  by (simp add: coord_def)

lemma kd_inv_Insert:
  "kd_inv d t \<Longrightarrow> no_NaN p \<Longrightarrow> \<forall>q \<in> points_of t. no_NaN q \<Longrightarrow> kd_inv d (Insert t p d)"
proof (induction t arbitrary: d)
  case NilNode
  then show ?case by simp
next
  case (Node rp l r axis)
  have c: "coord axis p \<noteq> NaN" "coord axis rp \<noteq> NaN"
    using Node.prems coord_no_NaN[of p axis] coord_no_NaN[of rp axis] by auto
  have inv: "axis = d mod 2" "kd_inv (d + 1) l" "kd_inv (d + 1) r"
    "\<forall>q \<in> points_of l. fle (coord axis q) (coord axis rp)"
    "\<forall>q \<in> points_of r. fge (coord axis q) (coord axis rp)"
    using Node.prems(1) by auto
  have nn: "\<forall>q \<in> points_of l. no_NaN q" "\<forall>q \<in> points_of r. no_NaN q"
    using Node.prems(3) by auto
  show ?case
  proof (cases "flt (coord axis p) (coord axis rp)")
    case True
    have "kd_inv (d + 1) (Insert l p (d + 1))"
      using Node.IH(1)[OF inv(2) Node.prems(2) nn(1)] .
    then show ?thesis
      unfolding Insert_coord using True inv by (simp add: points_of_Insert flt_fle)
  next
    case False
    then have "fge (coord axis p) (coord axis rp)"
      using c by (auto simp: fge_def intro: not_flt_fle)
    moreover have "kd_inv (d + 1) (Insert r p (d + 1))"
      using Node.IH(2)[OF inv(3) Node.prems(2) nn(2)] .
    ultimately show ?thesis
      unfolding Insert_coord using False inv by (simp add: points_of_Insert)
  qed
qed

lemma points_mset_BuildKDTree: "points_mset (BuildKDTree ps d) = mset ps"
proof (induction ps d rule: BuildKDTree.induct)
  case (1 points depth)
  show ?case
  proof (cases "length points = 0")
    case True
    then show ?thesis by (simp add: BuildKDTree.simps)
  next
    case False
    define s where "s = SliceStable points
      (\<lambda>p q. if depth mod 2 = 0 then flt (Lat p) (Lat q) else flt (Lon p) (Lon q))"
    define m where "m = length s div 2"
    have len: "length s = length points" by (simp add: s_def length_SliceStable)
    have m: "m < length s" using False len by (simp add: m_def)
    have IH1: "points_mset (BuildKDTree (take m s) (depth + 1)) = mset (take m s)"
      using "1.IH"(1)[OF False refl refl refl] by (simp add: s_def m_def)
    have IH2: "points_mset (BuildKDTree (drop (m + 1) s) (depth + 1)) = mset (drop (m + 1) s)"
      using "1.IH"(2)[OF False refl refl refl] by (simp add: s_def m_def)
    have "mset s = mset (take m s) + mset (drop m s)"
      by (metis append_take_drop_id mset_append)
    also have "drop m s = s ! m # drop (Suc m) s"
      using m by (simp add: Cons_nth_drop_Suc)
    finally have split: "mset s = add_mset (s ! m) (mset (take m s) + mset (drop (Suc m) s))"
      by simp
    have "points_mset (BuildKDTree points depth)
        = add_mset (s ! m) (mset (take m s) + mset (drop (m + 1) s))"
      using False IH1 IH2 by (subst BuildKDTree.simps) (simp add: Let_def s_def m_def)
    also have "\<dots> = mset s" using split by simp
    also have "\<dots> = mset points" by (simp add: s_def mset_SliceStable)
    finally show ?thesis .
  qed
qed

lemma points_of_BuildKDTree: "points_of (BuildKDTree ps d) = set ps"
  by (simp add: points_of_mset points_mset_BuildKDTree)

lemma kd_inv_BuildKDTree: "\<forall>p \<in> set ps. no_NaN p \<Longrightarrow> kd_inv d (BuildKDTree ps d)"
proof (induction ps d rule: BuildKDTree.induct)
  case (1 points depth)
  show ?case
  proof (cases "length points = 0")
    case True
    then show ?thesis by (simp add: BuildKDTree.simps)
  next
    case False
    define s where "s = SliceStable points
      (\<lambda>p q. if depth mod 2 = 0 then flt (Lat p) (Lat q) else flt (Lon p) (Lon q))"
    define m where "m = length s div 2"
    have len: "length s = length points" by (simp add: s_def length_SliceStable)
    have m: "m < length s" using False len by (simp add: m_def)
    have sets: "set s = set points" by (simp add: s_def set_SliceStable)
    have srt: "sorted_wrt (\<lambda>a b. fle (coord (depth mod 2) a) (coord (depth mod 2) b)) s"
      unfolding s_def axis_less using "1.prems" coord_no_NaN
      by (intro sorted_SliceStable) blast
    have "\<forall>p \<in> set (take m s). no_NaN p"
      using "1.prems" sets by (auto dest: in_set_takeD)
    then have IH1: "kd_inv (depth + 1) (BuildKDTree (take m s) (depth + 1))"
      using "1.IH"(1)[OF False refl refl refl] by (simp add: s_def m_def)
    have "\<forall>p \<in> set (drop (m + 1) s). no_NaN p"
      using "1.prems" sets by (auto dest: in_set_dropD)
    then have IH2: "kd_inv (depth + 1) (BuildKDTree (drop (m + 1) s) (depth + 1))"
      using "1.IH"(2)[OF False refl refl refl] by (simp add: s_def m_def)
    have L: "\<forall>q \<in> set (take m s). fle (coord (depth mod 2) q) (coord (depth mod 2) (s ! m))"
      using sorted_take_le_nth[OF srt m] by blast
    have R: "\<forall>q \<in> set (drop (m + 1) s). fge (coord (depth mod 2) q) (coord (depth mod 2) (s ! m))"
      using sorted_drop_ge_nth[OF srt m] by simp
    have "BuildKDTree points depth
        = Node (s ! m) (BuildKDTree (take m s) (depth + 1))
               (BuildKDTree (drop (m + 1) s) (depth + 1)) (depth mod 2)"
      using False by (subst BuildKDTree.simps) (simp add: Let_def s_def m_def)
    then show ?thesis
      using IH1 IH2 L R by (simp add: points_of_BuildKDTree)
  qed
qed

lemma points_mset_InsertAll: "points_mset (InsertAll t qs) = points_mset t + mset qs"
  by (induction qs arbitrary: t) (auto simp: points_mset_Insert)

lemma kd_inv_InsertAll:
  "kd_inv 0 t \<Longrightarrow> \<forall>q \<in> points_of t \<union> set qs. no_NaN q \<Longrightarrow> kd_inv 0 (InsertAll t qs)"
proof (induction qs arbitrary: t)
  case Nil
  then show ?case by simp
next
  case (Cons q qs)
  have "kd_inv 0 (Insert t q 0)" using Cons.prems by (intro kd_inv_Insert) auto
  moreover have "\<forall>p \<in> points_of (Insert t q 0) \<union> set qs. no_NaN p"
    using Cons.prems by (auto simp: points_of_Insert)
  ultimately show ?case using Cons.IH by simp
qed

text \<open>
  C10, amended. When no coordinate is a NaN, a tree built by \<^const>\<open>BuildKDTree\<close> at depth 0
  and grown by any sequence of \<^const>\<open>Insert\<close> calls satisfies the ordering invariant (axis =
  depth mod 2, every point of the left subtree \<^verbatim>\<open><=\<close> the node on that axis and every point
  of the right subtree \<^verbatim>\<open>>=\<close> it), and a single \<^const>\<open>Insert\<close> into a tree that satisfies the
  invariant at its depth preserves it. With or without NaN coordinates the tree holds
  exactly the points given, and \<^const>\<open>Insert\<close> adds exactly one node, the inserted point.
\<close>

theorem kd_ordering_invariant:
  "((\<forall>p \<in> set ps \<union> set qs. no_NaN p) \<longrightarrow> kd_inv 0 (InsertAll (BuildKDTree ps 0) qs)) \<and>
   points_mset (InsertAll (BuildKDTree ps 0) qs) = mset ps + mset qs \<and>
   (kd_inv d t \<and> no_NaN p \<and> (\<forall>q \<in> points_of t. no_NaN q) \<longrightarrow> kd_inv d (Insert t p d)) \<and>
   points_mset (Insert t p d) = add_mset p (points_mset t) \<and>
   num_nodes (Insert t p d) = Suc (num_nodes t)"
proof (intro conjI impI)
  show "kd_inv 0 (InsertAll (BuildKDTree ps 0) qs)" if "\<forall>p \<in> set ps \<union> set qs. no_NaN p"
    using that by (intro kd_inv_InsertAll kd_inv_BuildKDTree) (auto simp: points_of_BuildKDTree)
  show "points_mset (InsertAll (BuildKDTree ps 0) qs) = mset ps + mset qs"
    by (simp add: points_mset_InsertAll points_mset_BuildKDTree)
  show "kd_inv d (Insert t p d)" if "kd_inv d t \<and> no_NaN p \<and> (\<forall>q \<in> points_of t. no_NaN q)"
    using that by (intro kd_inv_Insert) auto
  show "points_mset (Insert t p d) = add_mset p (points_mset t)"
    by (rule points_mset_Insert)
  show "num_nodes (Insert t p d) = Suc (num_nodes t)"
    by (simp add: num_nodes_mset points_mset_Insert)
qed

theorem kd_ordering_invariant_witness:
  "no_NaN \<lparr>Lat = Fin 2, Lon = Fin 7, Data = ()\<rparr> \<and>
   no_NaN \<lparr>Lat = Fin 3, Lon = Fin 1, Data = ()\<rparr> \<and>
   no_NaN \<lparr>Lat = NegInf, Lon = PosInf, Data = ()\<rparr> \<and>
   no_NaN \<lparr>Lat = Fin 1, Lon = Fin 9, Data = ()\<rparr> \<and>
   kd_inv 0 (InsertAll
     (BuildKDTree [\<lparr>Lat = Fin 2, Lon = Fin 7, Data = ()\<rparr>, \<lparr>Lat = Fin 3, Lon = Fin 1, Data = ()\<rparr>,
                   \<lparr>Lat = NegInf, Lon = PosInf, Data = ()\<rparr>] 0)
     [\<lparr>Lat = Fin 1, Lon = Fin 9, Data = ()\<rparr>]) \<and>
   kd_inv 0 (Node \<lparr>Lat = Fin 2, Lon = Fin 7, Data = ()\<rparr> NilNode NilNode 0) \<and>
   points_of (Node \<lparr>Lat = Fin 2, Lon = Fin 7, Data = ()\<rparr> NilNode NilNode 0) =
     {\<lparr>Lat = Fin 2, Lon = Fin 7, Data = ()\<rparr>} \<and>
   kd_inv 0 (Insert (Node \<lparr>Lat = Fin 2, Lon = Fin 7, Data = ()\<rparr> NilNode NilNode 0)
               \<lparr>Lat = Fin 1, Lon = Fin 9, Data = ()\<rparr> 0) \<and>
   num_nodes (Insert (Node \<lparr>Lat = Fin 2, Lon = Fin 7, Data = ()\<rparr> NilNode NilNode 0)
               \<lparr>Lat = Fin 1, Lon = Fin 9, Data = ()\<rparr> 0) = 2"
proof -
  have h: "kd_inv 0 (Node \<lparr>Lat = Fin 2, Lon = Fin 7, Data = ()\<rparr> NilNode NilNode 0)"
    by simp
  have n: "no_NaN \<lparr>Lat = Fin 1, Lon = Fin 9, Data = ()\<rparr>"
    "no_NaN \<lparr>Lat = Fin 2, Lon = Fin 7, Data = ()\<rparr>"
    "no_NaN \<lparr>Lat = Fin 3, Lon = Fin 1, Data = ()\<rparr>"
    "no_NaN \<lparr>Lat = NegInf, Lon = PosInf, Data = ()\<rparr>"
    by (simp_all add: no_NaN_def)
  show ?thesis
    using h n kd_ordering_invariant
      [of "[\<lparr>Lat = Fin 2, Lon = Fin 7, Data = ()\<rparr>, \<lparr>Lat = Fin 3, Lon = Fin 1, Data = ()\<rparr>,
            \<lparr>Lat = NegInf, Lon = PosInf, Data = ()\<rparr>]"
        "[\<lparr>Lat = Fin 1, Lon = Fin 9, Data = ()\<rparr>]" 0
        "Node \<lparr>Lat = Fin 2, Lon = Fin 7, Data = ()\<rparr> NilNode NilNode 0"
        "\<lparr>Lat = Fin 1, Lon = Fin 9, Data = ()\<rparr>"]
    by simp
qed

text \<open>
  C10, as stated, fails on a NaN coordinate, which the type of the coordinates admits and
  neither function excludes. Every comparison with a NaN is false. So \<^const>\<open>Insert\<close> sends
  a point whose latitude is a NaN into the right subtree of a root of latitude 1, where it
  is not \<^verbatim>\<open>>=\<close> the root; and on the slice of that point and a point of latitude 1 the sort of
  \<^const>\<open>BuildKDTree\<close> swaps nothing, the median is the second point and the NaN point
  becomes its left subtree, where it is not \<^verbatim>\<open><=\<close> the root.
\<close>

theorem kd_ordering_NaN_counterexample:
  "kd_inv 0 (Node \<lparr>Lat = Fin 1, Lon = Fin 1, Data = ()\<rparr> NilNode NilNode 0) \<and>
   Insert (Node \<lparr>Lat = Fin 1, Lon = Fin 1, Data = ()\<rparr> NilNode NilNode 0)
     \<lparr>Lat = NaN, Lon = Fin 0, Data = ()\<rparr> 0 =
   Node \<lparr>Lat = Fin 1, Lon = Fin 1, Data = ()\<rparr> NilNode
     (Node \<lparr>Lat = NaN, Lon = Fin 0, Data = ()\<rparr> NilNode NilNode 1) 0 \<and>
   \<not> fge NaN (Fin 1) \<and>
   \<not> kd_inv 0 (Insert (Node \<lparr>Lat = Fin 1, Lon = Fin 1, Data = ()\<rparr> NilNode NilNode 0)
                 \<lparr>Lat = NaN, Lon = Fin 0, Data = ()\<rparr> 0) \<and>
   BuildKDTree [\<lparr>Lat = NaN, Lon = Fin 0, Data = ()\<rparr>, \<lparr>Lat = Fin 1, Lon = Fin 1, Data = ()\<rparr>] 0 =
   Node \<lparr>Lat = Fin 1, Lon = Fin 1, Data = ()\<rparr>
     (Node \<lparr>Lat = NaN, Lon = Fin 0, Data = ()\<rparr> NilNode NilNode 1) NilNode 0 \<and>
   \<not> fle NaN (Fin 1) \<and>
   \<not> kd_inv 0
       (BuildKDTree [\<lparr>Lat = NaN, Lon = Fin 0, Data = ()\<rparr>, \<lparr>Lat = Fin 1, Lon = Fin 1, Data = ()\<rparr>] 0)"
  by (simp add: BuildKDTree.simps SliceStable_def Let_def coord_def fle_def fge_def)

section \<open>Properties of the range search\<close>

text \<open>Whatever the search returns is a point of the tree within the radius.\<close>

lemma SearchRange_sound:
  "set (SearchRange t q r d acc) \<subseteq>
     set acc \<union> {p \<in> points_of t. fle (Haversine (Lat q) (Lon q) (Lat p) (Lon p)) r}"
proof (induction t arbitrary: d acc)
  case NilNode
  show ?case by simp
next
  case (Node p t1 t2 axis)
  define W where "W t = {p \<in> points_of t. fle (Haversine (Lat q) (Lon q) (Lat p) (Lon p)) r}"
    for t :: "'a Node"
  define acc1 where
    "acc1 = (if fle (Haversine (Lat q) (Lon q) (Lat p) (Lon p)) r then acc @ [p] else acc)"
  define acc2 where "acc2 =
     (if fle (fsub (if d mod 2 = 0 then Lat q else Lon q) (coordDegrees r (Lat q) (d mod 2)))
            (if d mod 2 = 0 then Lat p else Lon p)
      then SearchRange t1 q r (d + 1) acc1 else acc1)"
  define acc3 where "acc3 =
     (if fge (fadd (if d mod 2 = 0 then Lat q else Lon q) (coordDegrees r (Lat q) (d mod 2)))
            (if d mod 2 = 0 then Lat p else Lon p)
      then SearchRange t2 q r (d + 1) acc2 else acc2)"
  have e: "SearchRange (Node p t1 t2 axis) q r d acc = acc3"
    by (simp add: Let_def acc1_def acc2_def acc3_def)
  have 1: "set acc1 \<subseteq> set acc \<union> W (Node p t1 t2 axis)"
    by (auto simp: acc1_def W_def)
  have "set acc2 \<subseteq> set acc1 \<union> W t1"
    using Node.IH(1)[of "d + 1" acc1] by (auto simp: acc2_def W_def)
  then have 2: "set acc2 \<subseteq> set acc \<union> W (Node p t1 t2 axis)"
    using 1 by (auto simp: W_def)
  have "set acc3 \<subseteq> set acc2 \<union> W t2"
    using Node.IH(2)[of "d + 1" acc2] by (auto simp: acc3_def W_def)
  then have "set acc3 \<subseteq> set acc \<union> W (Node p t1 t2 axis)"
    using 2 by (auto simp: W_def)
  then show ?case unfolding e W_def .
qed

subsection \<open>The constant \<^const>\<open>math_Pi\<close> and \<open>\<pi>\<close>\<close>

lemma sin_poly16:
  "(\<Sum>m<16. sin_coeff m * x ^ m) =
     x - x^3 / 6 + x^5 / 120 - x^7 / 5040 + x^9 / 362880 - x^11 / 39916800
       + x^13 / 6227020800 - x^15 / 1307674368000" for x :: real
  by (simp add: sin_coeff_def lessThan_nat_numeral sum.lessThan_Suc fact_numeral)

lemma pi_lower: "3.14155 < pi"
proof (rule ccontr)
  assume "\<not> 3.14155 < pi"
  then have "pi \<le> 3.14155" by simp
  moreover have "(3.14155::real) < 2 * pi" using pi_ge_two by simp
  ultimately have le: "sin (3.14155::real) \<le> 0" by (rule sin_le_zero)
  have "\<bar>sin (3.14155::real) - (\<Sum>m<16. sin_coeff m * 3.14155 ^ m)\<bar>
      \<le> inverse (fact 16) * \<bar>3.14155\<bar> ^ 16"
    by (rule Maclaurin_sin_bound)
  then have "sin (3.14155::real)
      \<ge> (\<Sum>m<16. sin_coeff m * 3.14155 ^ m) - inverse (fact 16) * \<bar>3.14155\<bar> ^ 16"
    by linarith
  moreover have
    "(\<Sum>m<16. sin_coeff m * (3.14155::real) ^ m) - inverse (fact 16) * \<bar>3.14155\<bar> ^ 16 > 0"
    unfolding sin_poly16 by (simp add: fact_numeral power_divide field_simps)
  ultimately show False using le by linarith
qed

lemma pi_upper: "pi < 3.14163"
proof (rule ccontr)
  assume "\<not> pi < 3.14163"
  then have "3.14163 \<le> pi" by simp
  then have ge: "sin (3.14163::real) \<ge> 0" by (intro sin_ge_zero) auto
  have "\<bar>sin (3.14163::real) - (\<Sum>m<16. sin_coeff m * 3.14163 ^ m)\<bar>
      \<le> inverse (fact 16) * \<bar>3.14163\<bar> ^ 16"
    by (rule Maclaurin_sin_bound)
  then have "sin (3.14163::real)
      \<le> (\<Sum>m<16. sin_coeff m * 3.14163 ^ m) + inverse (fact 16) * \<bar>3.14163\<bar> ^ 16"
    by linarith
  moreover have
    "(\<Sum>m<16. sin_coeff m * (3.14163::real) ^ m) + inverse (fact 16) * \<bar>3.14163\<bar> ^ 16 < 0"
    unfolding sin_poly16 by (simp add: fact_numeral power_divide field_simps)
  ultimately show False using ge by linarith
qed

lemma math_Pi_near_pi: "\<bar>pi - 884279719003555 / 281474976710656\<bar> < 1 / 20000"
proof -
  have "(3.14159::real) < 884279719003555 / 281474976710656"
    "884279719003555 / 281474976710656 < (3.14160::real)"
    by simp_all
  with pi_lower pi_upper show ?thesis unfolding abs_less_iff by linarith
qed

subsection \<open>Distances along the equator\<close>

lemma sin_square_bounds: "\<not> sin x * sin x < 0" "\<not> 1 < sin x * sin x" for x :: real
proof -
  have "sin x * sin x + cos x * cos x = 1"
    using sin_cos_squared_add[of x] by (simp add: power2_eq_square)
  moreover have "0 \<le> cos x * cos x" by simp
  ultimately show "\<not> 1 < sin x * sin x" by linarith
qed (simp add: not_less)

lemma Haversine_equator:
  assumes "t = (lon2 - lon1) * (884279719003555 / 281474976710656) / 180 / 2"
  shows "Haversine (Fin 0) (Fin lon1) (Fin 0) (Fin lon2) =
     Fin (6371 * (2 * angle_of (sqrt (sin t * sin t)) (sqrt (1 - sin t * sin t))))"
  unfolding assms
  by (simp add: Haversine_def EarthRadiusKm_def math_Pi_def fsub_def Let_def sin_square_bounds)

text \<open>Two points at a small angle \<open>d\<close>, and two points a quarter turn or more apart.\<close>

lemma angle_of_near:
  assumes "\<bar>d\<bar> < pi / 2"
  shows "angle_of (sqrt (sin d * sin d)) (sqrt (1 - sin d * sin d)) = \<bar>d\<bar>"
proof -
  have c: "0 < cos d" using assms by (intro cos_gt_zero_pi) (auto simp: abs_less_iff)
  have "1 - sin d * sin d = cos d * cos d"
    using sin_cos_squared_add[of d] by (simp add: power2_eq_square algebra_simps)
  then have x: "sqrt (1 - sin d * sin d) = cos d" using c by simp
  have y: "sqrt (sin d * sin d) = \<bar>sin d\<bar>" by simp
  have "\<bar>sin d\<bar> = sin \<bar>d\<bar>"
  proof (cases "0 \<le> d")
    case True
    then have "0 \<le> sin d" using assms by (intro sin_ge_zero) (auto simp: abs_less_iff)
    then show ?thesis using True by simp
  next
    case False
    then have "sin d < 0" using assms by (intro sin_less_zero) (auto simp: abs_less_iff)
    then show ?thesis using False by simp
  qed
  moreover have "cos d = cos \<bar>d\<bar>" by simp
  ultimately have "\<bar>sin d\<bar> / cos d = tan \<bar>d\<bar>" by (simp add: tan_def)
  then have "arctan (\<bar>sin d\<bar> / cos d) = \<bar>d\<bar>"
    using assms by (simp add: arctan_tan)
  then show ?thesis using c by (simp add: angle_of_def x y)
qed

lemma angle_of_far:
  assumes "0 < y" "0 \<le> x" "x \<le> y"
  shows "pi / 4 \<le> angle_of y x"
proof (cases "x = 0")
  case True
  then show ?thesis using assms by (simp add: angle_of_def)
next
  case False
  then have "1 \<le> y / x" using assms by simp
  then have "arctan 1 \<le> arctan (y / x)" by (rule arctan_monotone')
  then show ?thesis using False assms by (simp add: angle_of_def arctan_one)
qed

lemma Haversine_antimeridian:
  "fle (Haversine (Fin 0) (Fin 180) (Fin 0) (Fin (-180))) (Fin 1)"
proof -
  define P :: real where "P = 884279719003555 / 281474976710656"
  define d where "d = pi - P"
  have d: "\<bar>d\<bar> < 1 / 20000" using math_Pi_near_pi by (simp add: d_def P_def)
  have "\<bar>d\<bar> < pi / 2" using d pi_ge_two by linarith
  from angle_of_near[OF this]
  have ang: "angle_of (sqrt (sin d * sin d)) (sqrt (1 - sin d * sin d)) = \<bar>d\<bar>" .
  have sq: "sin (- P) * sin (- P) = sin d * sin d" by (simp add: d_def)
  have "Haversine (Fin 0) (Fin 180) (Fin 0) (Fin (-180))
      = Fin (6371 * (2 * angle_of (sqrt (sin (- P) * sin (- P))) (sqrt (1 - sin (- P) * sin (- P)))))"
    by (rule Haversine_equator) (simp add: P_def)
  then have "Haversine (Fin 0) (Fin 180) (Fin 0) (Fin (-180)) = Fin (6371 * (2 * \<bar>d\<bar>))"
    unfolding sq ang .
  then show ?thesis using d by (simp add: fle_def)
qed

lemma Haversine_antipode:
  "\<not> fle (Haversine (Fin 0) (Fin 180) (Fin 0) (Fin 0)) (Fin 1)"
proof -
  define P :: real where "P = 884279719003555 / 281474976710656"
  define s where "s = sin (P / 2)"
  have P: "3 < P" "P < 4" by (simp_all add: P_def)
  have s0: "0 < s" unfolding s_def using P by (intro sin_gt_zero_02) auto
  have sq: "1 - s * s = cos (P / 2) * cos (P / 2)"
    using sin_cos_squared_add[of "P / 2"] by (simp add: s_def power2_eq_square algebra_simps)
  have "\<bar>cos (P / 2)\<bar> = \<bar>sin (pi / 2 - P / 2)\<bar>" by (simp add: sin_diff)
  also have "\<dots> \<le> \<bar>pi / 2 - P / 2\<bar>" by (rule abs_sin_x_le_abs_x)
  also have "\<dots> < 1 / 2" using math_Pi_near_pi unfolding P_def by linarith
  finally have c: "\<bar>cos (P / 2)\<bar> < 1 / 2" .
  have "\<bar>cos (P / 2)\<bar> * \<bar>cos (P / 2)\<bar> < (1 / 2) * (1 / 2)"
    using c by (intro mult_strict_mono) auto
  then have "cos (P / 2) * cos (P / 2) < 1 / 4" by (simp add: abs_mult_self_eq)
  then have ss: "3 / 4 < s * s" using sq by linarith
  have sh: "1 / 2 < s"
  proof (rule ccontr)
    assume "\<not> 1 / 2 < s"
    then have "s \<le> 1 / 2" by simp
    then have "s * s \<le> (1 / 2) * (1 / 2)" using s0 by (intro mult_mono) auto
    then show False using ss by simp
  qed
  have xs: "sqrt (1 - s * s) = \<bar>cos (P / 2)\<bar>" by (simp add: sq)
  have ys: "sqrt (s * s) = s" using s0 by simp
  have "pi / 4 \<le> angle_of (sqrt (s * s)) (sqrt (1 - s * s))"
    unfolding xs ys using s0 c sh by (intro angle_of_far) auto
  then have big: "1 < 6371 * (2 * angle_of (sqrt (s * s)) (sqrt (1 - s * s)))"
    using pi_ge_two by simp
  have m: "sin (- (P / 2)) * sin (- (P / 2)) = s * s" by (simp add: s_def)
  have "Haversine (Fin 0) (Fin 180) (Fin 0) (Fin 0)
      = Fin (6371 * (2 * angle_of (sqrt (sin (- (P / 2)) * sin (- (P / 2))))
                                  (sqrt (1 - sin (- (P / 2)) * sin (- (P / 2))))))"
    by (rule Haversine_equator) (simp add: P_def)
  then have "Haversine (Fin 0) (Fin 180) (Fin 0) (Fin 0)
      = Fin (6371 * (2 * angle_of (sqrt (s * s)) (sqrt (1 - s * s))))"
    unfolding m .
  then show ?thesis using big by (simp add: fle_def)
qed

lemma coordDegrees_equator:
  "coordDegrees (Fin 1) (Fin 0) 0 = Fin (180 / (6371 * pi))"
  "coordDegrees (Fin 1) (Fin 0) (Suc 0) = Fin (180 / (6371 * pi))"
  by (simp_all add: coordDegrees_def EarthRadiusKm_def math_Pi_def)

lemma earth_half_circle: "6371 * pi > 1"
  using pi_ge_two by linarith

lemma window_one_km: "0 < 180 / (6371 * pi)" "180 / (6371 * pi) < 180"
  using earth_half_circle by (simp_all add: field_simps)

lemma BuildKDTree_four:
  "BuildKDTree [\<lparr>Lat = Fin 0, Lon = Fin (-180), Data = ''p''\<rparr>, \<lparr>Lat = Fin 0, Lon = Fin 0, Data = ''b''\<rparr>,
         \<lparr>Lat = Fin 0, Lon = Fin 0, Data = ''a''\<rparr>, \<lparr>Lat = Fin 0, Lon = Fin 0, Data = ''c''\<rparr>] 0 =
   Node \<lparr>Lat = Fin 0, Lon = Fin 0, Data = ''a''\<rparr>
     (Node \<lparr>Lat = Fin 0, Lon = Fin 0, Data = ''b''\<rparr>
        (Node \<lparr>Lat = Fin 0, Lon = Fin (-180), Data = ''p''\<rparr> NilNode NilNode 0) NilNode 1)
     (Node \<lparr>Lat = Fin 0, Lon = Fin 0, Data = ''c''\<rparr> NilNode NilNode 1) 0"
  by (simp add: BuildKDTree.simps SliceStable_def Let_def)

text \<open>
  C1. The code misses a point within the radius. The query \<open>(0, 180)\<close> and the point
  \<open>(0, -180)\<close> are the same place on the sphere, and the distance that \<^const>\<open>Haversine\<close>
  computes for them is far below 1 km (it is not zero only because \<^const>\<open>math_Pi\<close> is not
  \<open>\<pi>\<close>); both the tree grown by \<^const>\<open>Insert\<close> from \<open>(0, 0)\<close>, \<open>(0, 0)\<close>, \<open>(0, -180)\<close> and the
  tree that \<^const>\<open>BuildKDTree\<close> builds from \<open>(0, -180)\<close> and three stops at \<open>(0, 0)\<close> hold
  that point in the left subtree of a node that splits on longitude 0, and a search with
  radius 1 km does not descend there, because \<open>180 - delta > 0\<close>: the window test compares
  longitudes as numbers and does not wrap at the antimeridian. The search returns nothing.
\<close>

theorem SearchRange_misses_across_antimeridian:
  "fle (Haversine (Fin 0) (Fin 180) (Fin 0) (Fin (-180))) (Fin 1) \<and>
   \<lparr>Lat = Fin 0, Lon = Fin (-180), Data = ''p''\<rparr> \<in> points_of
     (InsertAll NilNode
        [\<lparr>Lat = Fin 0, Lon = Fin 0, Data = ''a''\<rparr>, \<lparr>Lat = Fin 0, Lon = Fin 0, Data = ''b''\<rparr>,
         \<lparr>Lat = Fin 0, Lon = Fin (-180), Data = ''p''\<rparr>]) \<and>
   SearchRange
     (InsertAll NilNode
        [\<lparr>Lat = Fin 0, Lon = Fin 0, Data = ''a''\<rparr>, \<lparr>Lat = Fin 0, Lon = Fin 0, Data = ''b''\<rparr>,
         \<lparr>Lat = Fin 0, Lon = Fin (-180), Data = ''p''\<rparr>])
     \<lparr>Lat = Fin 0, Lon = Fin 180, Data = ''q''\<rparr> (Fin 1) 0 [] = [] \<and>
   SearchRange
     (BuildKDTree
        [\<lparr>Lat = Fin 0, Lon = Fin (-180), Data = ''p''\<rparr>, \<lparr>Lat = Fin 0, Lon = Fin 0, Data = ''b''\<rparr>,
         \<lparr>Lat = Fin 0, Lon = Fin 0, Data = ''a''\<rparr>, \<lparr>Lat = Fin 0, Lon = Fin 0, Data = ''c''\<rparr>] 0)
     \<lparr>Lat = Fin 0, Lon = Fin 180, Data = ''q''\<rparr> (Fin 1) 0 [] = []"
proof -
  have w: "\<not> fle (fsub (Fin 180) (Fin (180 / (6371 * pi)))) (Fin 0)"
    "fle (fsub (Fin 0) (Fin (180 / (6371 * pi)))) (Fin 0)"
    "fge (fadd (Fin 0) (Fin (180 / (6371 * pi)))) (Fin 0)"
    using window_one_km by (auto simp: fle_def fge_def fsub_def)
  have "0 < 180 + 180 / (6371 * pi)"
    by (intro add_pos_pos) auto
  then have w': "fge (fadd (Fin 180) (Fin (180 / (6371 * pi)))) (Fin 0)"
    by (simp add: fle_def fge_def)
  show ?thesis
    by (simp add: BuildKDTree_four Haversine_antimeridian Haversine_antipode
      coordDegrees_equator Let_def w w')
qed

section \<open>Properties of the name normalisation\<close>

lemma normalize_source_order: "normalize (\<lambda>s. s) replacements ''hauptbahnhof x'' = ''hbf x''"
  by code_simp

lemma normalize_reverse_order:
  "normalize (\<lambda>s. s) (rev replacements) ''hauptbahnhof x'' = ''hauptbf x''"
  by code_simp

lemma normalize_Unidecode_fixed:
  "u name = name \<Longrightarrow> normalize u order name = normalize (\<lambda>s. s) order name"
  by (simp add: normalize_def)

text \<open>
  C6. The output of \<^verbatim>\<open>normalize\<close> depends on the order in which the range visits the
  replacement table. For the name \<open>''hauptbahnhof x''\<close> (ASCII, so \<^verbatim>\<open>Unidecode\<close> returns it
  as it is) two orders that are both permutations of the table give two outputs: visiting
  \<open>''hauptbahnhof ''\<close> before \<open>''bahnhof ''\<close>, as in the order of the source text, gives
  \<open>''hbf x''\<close>; visiting \<open>''bahnhof ''\<close> first, as in the reverse order, gives
  \<open>''hauptbf x''\<close>.
\<close>

theorem normalize_depends_on_range_order:
  assumes "u ''hauptbahnhof x'' = ''hauptbahnhof x''"
  shows "mset (rev replacements) = mset replacements \<and>
         normalize u replacements ''hauptbahnhof x'' = ''hbf x'' \<and>
         normalize u (rev replacements) ''hauptbahnhof x'' = ''hauptbf x''"
  using assms
  by (simp add: normalize_Unidecode_fixed normalize_source_order normalize_reverse_order)

theorem normalize_depends_on_range_order_witness:
  "(\<lambda>s. s) ''hauptbahnhof x'' = ''hauptbahnhof x'' \<and>
   normalize (\<lambda>s. s) replacements ''hauptbahnhof x'' = ''hbf x'' \<and>
   normalize (\<lambda>s. s) (rev replacements) ''hauptbahnhof x'' = ''hauptbf x'' \<and>
   normalize (\<lambda>s. s) replacements ''hauptbahnhof x'' \<noteq>
     normalize (\<lambda>s. s) (rev replacements) ''hauptbahnhof x''"
  using normalize_depends_on_range_order [of "\<lambda>s. s"] by simp

section \<open>Properties of the disjoint-set forest\<close>

lemma root_path_root: "root_path m k r \<Longrightarrow> m r = Some r"
  by (induction rule: root_path.induct) auto

lemma root_path_dom: "root_path m k r \<Longrightarrow> k \<in> dom m"
  by (induction rule: root_path.induct) auto

lemma root_path_fun: "root_path m k r \<Longrightarrow> root_path m k r' \<Longrightarrow> r = r'"
proof (induction arbitrary: r' rule: root_path.induct)
  case (at_root k)
  from at_root.prems show ?case
  proof (cases rule: root_path.cases)
    case at_root
    then show ?thesis by simp
  next
    case (via_parent p)
    with at_root.hyps show ?thesis by simp
  qed
next
  case (via_parent k p r)
  from via_parent.prems show ?case
  proof (cases rule: root_path.cases)
    case at_root
    with via_parent.hyps show ?thesis by simp
  next
    case (via_parent p')
    with via_parent.hyps have "p' = p" by simp
    with via_parent(3) show ?thesis by (simp add: via_parent.IH)
  qed
qed

lemma root_path_of_root: "m r = Some r \<Longrightarrow> root_path m r b \<longleftrightarrow> b = r"
  using root_path_fun [of m r b r] root_path.at_root [of m r] by auto

lemma compress_complete:
  assumes kr: "root_path m k r" and m': "m' = m(k \<mapsto> r)" and ab: "root_path m a b"
  shows "root_path m' a b"
  using ab
proof (induction rule: root_path.induct)
  case (at_root a)
  show ?case
  proof (cases "a = k")
    case True
    with at_root kr have "r = k" by (simp add: root_path_of_root)
    with True show ?thesis by (simp add: root_path.at_root m')
  next
    case False
    with at_root show ?thesis by (simp add: root_path.at_root m')
  qed
next
  case (via_parent a p b)
  show ?case
  proof (cases "a = k")
    case True
    have "root_path m k b" using True via_parent.hyps by (auto intro: root_path.via_parent)
    with kr have br: "b = r" by (rule root_path_fun[symmetric])
    have rr: "m r = Some r" using kr by (rule root_path_root)
    have rk: "r \<noteq> k" using rr via_parent.hyps True by auto
    then have "root_path m' r r" using rr by (simp add: root_path.at_root m')
    moreover have "m' k = Some r" by (simp add: m')
    ultimately have "root_path m' k r" using rk by (rule root_path.via_parent[rotated 2])
    then show ?thesis using True br by simp
  next
    case False
    then have "m' a = Some p" using via_parent.hyps by (simp add: m')
    then show ?thesis using via_parent.hyps(2) via_parent.IH by (rule root_path.via_parent)
  qed
qed

lemma compress_sound:
  assumes kr: "root_path m k r" and m': "m' = m(k \<mapsto> r)" and ab: "root_path m' a b"
  shows "root_path m a b"
  using ab
proof (induction rule: root_path.induct)
  case (at_root a)
  show ?case
  proof (cases "a = k")
    case True
    with at_root have "r = k" by (simp add: m')
    with kr True show ?thesis by simp
  next
    case False
    with at_root show ?thesis by (simp add: root_path.at_root m')
  qed
next
  case (via_parent a p b)
  show ?case
  proof (cases "a = k")
    case True
    with via_parent.hyps have "p = r" by (simp add: m')
    with via_parent.IH have "root_path m r b" by simp
    moreover have "m r = Some r" using kr by (rule root_path_root)
    ultimately have "b = r" by (simp add: root_path_of_root)
    with kr True show ?thesis by simp
  next
    case False
    then have "m a = Some p" using via_parent.hyps by (simp add: m')
    then show ?thesis using via_parent.hyps(2) via_parent.IH by (rule root_path.via_parent)
  qed
qed

lemma root_path_compress:
  "root_path m k r \<Longrightarrow> root_path (m(k \<mapsto> r)) a b \<longleftrightarrow> root_path m a b"
  using compress_sound [of m k r "m(k \<mapsto> r)" a b] compress_complete [of m k r "m(k \<mapsto> r)" a b]
  by blast

lemma link_complete:
  assumes x: "m x = Some x" and xy: "x \<noteq> y" and y: "m y = Some y"
    and m': "m' = m(x \<mapsto> y)" and ab: "root_path m a b"
  shows "root_path m' a (if b = x then y else b)"
  using ab
proof (induction rule: root_path.induct)
  case (at_root a)
  show ?case
  proof (cases "a = x")
    case True
    have "root_path m' y y" using y xy by (simp add: root_path.at_root m')
    moreover have "m' x = Some y" by (simp add: m')
    moreover have "y \<noteq> x" using xy by simp
    ultimately have "root_path m' x y" by (rule root_path.via_parent[rotated 2])
    with True show ?thesis by simp
  next
    case False
    with at_root show ?thesis by (simp add: root_path.at_root m')
  qed
next
  case (via_parent a p b)
  have "a \<noteq> x" using via_parent.hyps x by auto
  then have "m' a = Some p" using via_parent.hyps by (simp add: m')
  then show ?case using via_parent.hyps(2) via_parent.IH by (rule root_path.via_parent)
qed

lemma link_sound:
  assumes x: "m x = Some x" and xy: "x \<noteq> y" and y: "m y = Some y"
    and m': "m' = m(x \<mapsto> y)" and ab: "root_path m' a b"
  shows "(root_path m a x \<and> b = y) \<or> (root_path m a b \<and> b \<noteq> x)"
  using ab
proof (induction rule: root_path.induct)
  case (at_root a)
  then have "a \<noteq> x" using xy by (auto simp: m')
  with at_root show ?case by (simp add: root_path.at_root m')
next
  case (via_parent a p b)
  show ?case
  proof (cases "a = x")
    case True
    with via_parent.hyps have "p = y" by (simp add: m')
    with via_parent.hyps have "root_path m' y b" by simp
    moreover have "m' y = Some y" using y xy by (simp add: m')
    ultimately have "b = y" by (simp add: root_path_of_root)
    with True x show ?thesis by (simp add: root_path.at_root)
  next
    case False
    with via_parent.hyps have ma: "m a = Some p" by (simp add: m')
    from via_parent.IH show ?thesis
    proof
      assume "root_path m p x \<and> b = y"
      then show ?thesis using ma via_parent.hyps(2)
        by (auto intro: root_path.via_parent)
    next
      assume "root_path m p b \<and> b \<noteq> x"
      then show ?thesis using ma via_parent.hyps(2)
        by (auto intro: root_path.via_parent)
    qed
  qed
qed

lemma root_path_link:
  assumes "m x = Some x" "x \<noteq> y" "m y = Some y"
  shows "root_path (m(x \<mapsto> y)) a b \<longleftrightarrow>
         (root_path m a x \<and> b = y) \<or> (root_path m a b \<and> b \<noteq> x)"
proof
  assume "root_path (m(x \<mapsto> y)) a b"
  then show "(root_path m a x \<and> b = y) \<or> (root_path m a b \<and> b \<noteq> x)"
    using link_sound[OF assms refl] by blast
next
  assume "(root_path m a x \<and> b = y) \<or> (root_path m a b \<and> b \<noteq> x)"
  then show "root_path (m(x \<mapsto> y)) a b"
    using link_complete[OF assms refl, of a x] link_complete[OF assms refl, of a b] by auto
qed


lemma FindSet_root_path:
  assumes "root_path (parent uf) k r"
  shows "\<exists>m'. FindSet uf k = Some (r, uf\<lparr>parent := m'\<rparr>) \<and> dom m' = dom (parent uf) \<and>
              (\<forall>a b. root_path m' a b \<longleftrightarrow> root_path (parent uf) a b)"
  using assms
proof (induction rule: root_path.induct)
  case (at_root k)
  then have "FindSet uf k = Some (k, uf\<lparr>parent := parent uf\<rparr>)"
    by (subst FindSet.simps) (simp add: parent_at_def)
  then show ?case by blast
next
  case (via_parent k p r)
  then obtain m1 where m1: "FindSet uf p = Some (r, uf\<lparr>parent := m1\<rparr>)"
      "dom m1 = dom (parent uf)" "\<forall>a b. root_path m1 a b \<longleftrightarrow> root_path (parent uf) a b"
    by blast
  have kr: "root_path (parent uf) k r"
    using via_parent.hyps by (rule root_path.via_parent)
  then have kr1: "root_path m1 k r" using m1(3) by simp
  have "FindSet uf k = Some (r, uf\<lparr>parent := m1(k \<mapsto> r)\<rparr>)"
    using via_parent.hyps(1,2) m1(1) by (subst FindSet.simps) (simp add: parent_at_def)
  moreover have "dom (m1(k \<mapsto> r)) = dom (parent uf)"
    using m1(2) via_parent.hyps(1) by auto
  moreover have "\<forall>a b. root_path (m1(k \<mapsto> r)) a b \<longleftrightarrow> root_path (parent uf) a b"
    using root_path_compress[OF kr1] m1(3) by simp
  ultimately show ?case by blast
qed

lemma UnionSet_spec:
  assumes x: "root_path (parent uf) x xr" and y: "root_path (parent uf) y yr"
  shows "\<exists>uf'. UnionSet uf x y = Some uf' \<and> dom (parent uf') = dom (parent uf) \<and>
           isPreferredParent uf' = isPreferredParent uf \<and> zeroT uf' = zeroT uf \<and>
           (if xr = yr
            then numSets uf' = numSets uf \<and>
                 (\<forall>a b. root_path (parent uf') a b \<longleftrightarrow> root_path (parent uf) a b)
            else numSets uf' = numSets uf - 1 \<and>
                 (\<forall>a b. root_path (parent uf') a b \<longleftrightarrow>
                    (root_path (parent uf) a (if survivor uf xr yr = xr then yr else xr) \<and>
                       b = survivor uf xr yr) \<or>
                    (root_path (parent uf) a b \<and>
                       b \<noteq> (if survivor uf xr yr = xr then yr else xr))))"
proof -
  obtain m1 where m1: "FindSet uf x = Some (xr, uf\<lparr>parent := m1\<rparr>)"
      "dom m1 = dom (parent uf)" "\<forall>a b. root_path m1 a b \<longleftrightarrow> root_path (parent uf) a b"
    using FindSet_root_path[OF x] by blast
  define uf1 where "uf1 = uf\<lparr>parent := m1\<rparr>"
  have "root_path (parent uf1) y yr" using y m1(3) by (simp add: uf1_def)
  from FindSet_root_path[OF this]
  obtain m2 where m2: "FindSet uf1 y = Some (yr, uf\<lparr>parent := m2\<rparr>)"
      "dom m2 = dom (parent uf)" "\<forall>a b. root_path m2 a b \<longleftrightarrow> root_path (parent uf) a b"
    using m1(2,3) by (auto simp: uf1_def)
  define uf2 where "uf2 = uf\<lparr>parent := m2\<rparr>"
  have pre: "UnionSet uf x y =
      (if xr = yr then Some uf2
       else
         let uf3 = uf2\<lparr>numSets := numSets uf2 - 1\<rparr> in
         if preferred_at uf3 xr \<and> \<not> preferred_at uf3 yr then
           Some (uf3\<lparr>parent := (parent uf3)(yr \<mapsto> xr),
                     size_m := (size_m uf3)(xr \<mapsto> size_at uf3 xr + size_at uf3 yr)\<rparr>)
         else if preferred_at uf3 yr \<and> \<not> preferred_at uf3 xr then
           Some (uf3\<lparr>parent := (parent uf3)(xr \<mapsto> yr),
                     size_m := (size_m uf3)(yr \<mapsto> size_at uf3 yr + size_at uf3 xr)\<rparr>)
         else if rank_at uf3 xr > rank_at uf3 yr then
           Some (uf3\<lparr>parent := (parent uf3)(yr \<mapsto> xr),
                     size_m := (size_m uf3)(xr \<mapsto> size_at uf3 xr + size_at uf3 yr)\<rparr>)
         else
           let uf4 = uf3\<lparr>parent := (parent uf3)(xr \<mapsto> yr),
                         size_m := (size_m uf3)(yr \<mapsto> size_at uf3 yr + size_at uf3 xr)\<rparr>
           in if rank_at uf4 xr = rank_at uf4 yr
              then Some (uf4\<lparr>rank := (rank uf4)(yr \<mapsto> rank_at uf4 yr + 1)\<rparr>)
              else Some uf4)"
    unfolding UnionSet_def using m1(1) m2(1) by (simp add: uf1_def uf2_def)
  show ?thesis
  proof (cases "xr = yr")
    case True
    then show ?thesis using pre m2 by (simp add: uf2_def)
  next
    case False
    have rx: "m2 xr = Some xr" and ry: "m2 yr = Some yr"
      using root_path_root[OF x] root_path_root[OF y] m2(3) root_path_root root_path.at_root
      by metis+
    define w where "w = survivor uf xr yr"
    define l where "l = (if w = xr then yr else xr)"
    have wl: "m2 l = Some l" "l \<noteq> w" "m2 w = Some w"
      using rx ry False by (auto simp: w_def l_def survivor_def)
    have pf: "preferred_at (uf2\<lparr>numSets := numSets uf2 - 1\<rparr>) = preferred_at uf"
      "rank_at (uf2\<lparr>numSets := numSets uf2 - 1\<rparr>) = rank_at uf"
      by (auto simp: preferred_at_def rank_at_def uf2_def fun_eq_iff)
    have "\<exists>uf'. UnionSet uf x y = Some uf' \<and> parent uf' = m2(l \<mapsto> w) \<and>
        isPreferredParent uf' = isPreferredParent uf \<and> zeroT uf' = zeroT uf \<and>
        numSets uf' = numSets uf - 1"
      using False unfolding pre Let_def pf
      by (auto simp: w_def l_def survivor_def uf2_def rank_at_def)
    then obtain uf' where uf': "UnionSet uf x y = Some uf'" "parent uf' = m2(l \<mapsto> w)"
        "isPreferredParent uf' = isPreferredParent uf" "zeroT uf' = zeroT uf"
        "numSets uf' = numSets uf - 1"
      by blast
    have "dom (parent uf') = dom (parent uf)"
      using uf'(2) m2(2) wl(1) by auto
    moreover have "\<forall>a b. root_path (parent uf') a b \<longleftrightarrow>
        (root_path (parent uf) a l \<and> b = w) \<or> (root_path (parent uf) a b \<and> b \<noteq> l)"
      using root_path_link[OF wl] m2(3) uf'(2) by simp
    ultimately show ?thesis
      using uf' False by (auto simp: w_def l_def)
  qed
qed

lemma uf_inv_root_path: "uf_inv uf \<Longrightarrow> k \<in> dom (parent uf) \<Longrightarrow> \<exists>r. root_path (parent uf) k r"
  by (simp add: uf_inv_def)

lemma UnionSet_inv:
  assumes inv: "uf_inv uf" and x: "x \<in> dom (parent uf)" and y: "y \<in> dom (parent uf)"
  shows "\<exists>uf'. UnionSet uf x y = Some uf' \<and> uf_inv uf' \<and> dom (parent uf') = dom (parent uf) \<and>
           isPreferredParent uf' = isPreferredParent uf \<and> zeroT uf' = zeroT uf"
proof -
  obtain xr yr where xr: "root_path (parent uf) x xr" and yr: "root_path (parent uf) y yr"
    using uf_inv_root_path[OF inv] x y by blast
  from UnionSet_spec[OF xr yr] obtain uf' where uf': "UnionSet uf x y = Some uf'"
    "dom (parent uf') = dom (parent uf)" "isPreferredParent uf' = isPreferredParent uf"
    "zeroT uf' = zeroT uf"
    and rel: "if xr = yr
            then numSets uf' = numSets uf \<and>
                 (\<forall>a b. root_path (parent uf') a b \<longleftrightarrow> root_path (parent uf) a b)
            else numSets uf' = numSets uf - 1 \<and>
                 (\<forall>a b. root_path (parent uf') a b \<longleftrightarrow>
                    (root_path (parent uf) a (if survivor uf xr yr = xr then yr else xr) \<and>
                       b = survivor uf xr yr) \<or>
                    (root_path (parent uf) a b \<and>
                       b \<noteq> (if survivor uf xr yr = xr then yr else xr)))"
    by blast
  have "uf_inv uf'"
    unfolding uf_inv_def
  proof
    fix k assume "k \<in> dom (parent uf')"
    then obtain r where "root_path (parent uf) k r"
      using uf'(2) uf_inv_root_path[OF inv] by blast
    then show "\<exists>r. root_path (parent uf') k r"
      using rel by (cases "xr = yr") (simp, metis)+
  qed
  then show ?thesis using uf' by blast
qed

lemma connected_insert:
  "(a, b) \<in> connected (insert (x, y) R) \<longleftrightarrow>
     (a, b) \<in> connected R \<or> ((a, x) \<in> connected R \<and> (y, b) \<in> connected R) \<or>
     ((a, y) \<in> connected R \<and> (x, b) \<in> connected R)"
  (is "?L \<longleftrightarrow> ?R a b")
proof
  have sym: "\<And>u v. (u, v) \<in> connected R \<Longrightarrow> (v, u) \<in> connected R"
    unfolding connected_def
    by (metis converse_Un converse_converse converse_iff rtrancl_converse sup_commute)
  have trans: "\<And>u v w. (u, v) \<in> connected R \<Longrightarrow> (v, w) \<in> connected R \<Longrightarrow> (u, w) \<in> connected R"
    unfolding connected_def by (rule rtrancl_trans)
  have step: "\<And>u v. (u, v) \<in> R \<union> R\<inverse> \<Longrightarrow> (u, v) \<in> connected R"
    unfolding connected_def by blast
  have refl: "\<And>u. (u, u) \<in> connected R"
    unfolding connected_def by blast
  assume ?L
  then have "(a, b) \<in> (insert (x, y) R \<union> (insert (x, y) R)\<inverse>)\<^sup>*"
    by (simp add: connected_def)
  then show "?R a b"
  proof (induction rule: rtrancl_induct)
    case base
    then show ?case using refl by blast
  next
    case (step c b)
    from step.hyps(2) consider "(c, b) \<in> R \<union> R\<inverse>" | "c = x \<and> b = y" | "c = y \<and> b = x"
      by auto
    then show ?case
    proof cases
      case 1
      then have "(c, b) \<in> connected R" by (rule \<open>\<And>u v. (u, v) \<in> R \<union> R\<inverse> \<Longrightarrow> (u, v) \<in> connected R\<close>)
      with step.IH show ?thesis using trans by blast
    next
      case 2
      with step.IH show ?thesis using trans sym refl by blast
    next
      case 3
      with step.IH show ?thesis using trans sym refl by blast
    qed
  qed
next
  have mono: "connected R \<subseteq> connected (insert (x, y) R)"
    unfolding connected_def by (rule rtrancl_mono) blast
  have xy: "(x, y) \<in> connected (insert (x, y) R)" "(y, x) \<in> connected (insert (x, y) R)"
    unfolding connected_def by blast+
  have trans: "\<And>u v w. (u, v) \<in> connected (insert (x, y) R) \<Longrightarrow> (v, w) \<in> connected (insert (x, y) R)
      \<Longrightarrow> (u, w) \<in> connected (insert (x, y) R)"
    unfolding connected_def by (rule rtrancl_trans)
  assume "?R a b"
  then show ?L
    using mono xy trans by blast
qed

lemma same_root_iff:
  "root_path (parent uf) a ar \<Longrightarrow> root_path (parent uf) b br \<Longrightarrow> same_root uf a b \<longleftrightarrow> ar = br"
  unfolding same_root_def using root_path_fun by metis

lemma UnionSet_roots:
  assumes xr: "root_path (parent uf) x xr" and yr: "root_path (parent uf) y yr"
    and u: "UnionSet uf x y = Some uf'" and ar: "root_path (parent uf) a ar"
  shows "root_path (parent uf') a
           (if xr \<noteq> yr \<and> ar = (if survivor uf xr yr = xr then yr else xr)
            then survivor uf xr yr else ar)"
  using UnionSet_spec[OF xr yr] u ar by (auto split: if_splits)

lemma UnionSet_same_root:
  assumes inv: "uf_inv uf" and x: "x \<in> dom (parent uf)" and y: "y \<in> dom (parent uf)"
    and u: "UnionSet uf x y = Some uf'"
    and a: "a \<in> dom (parent uf)" and b: "b \<in> dom (parent uf)"
  shows "same_root uf' a b \<longleftrightarrow>
           same_root uf a b \<or> (same_root uf a x \<and> same_root uf y b) \<or>
           (same_root uf a y \<and> same_root uf x b)"
proof -
  obtain xr yr ar br where r: "root_path (parent uf) x xr" "root_path (parent uf) y yr"
      "root_path (parent uf) a ar" "root_path (parent uf) b br"
    using uf_inv_root_path[OF inv] x y a b by metis
  define l where "l = (if survivor uf xr yr = xr then yr else xr)"
  define w where "w = survivor uf xr yr"
  have wl: "xr \<noteq> yr \<Longrightarrow> (w = xr \<and> l = yr) \<or> (w = yr \<and> l = xr)"
    by (auto simp: w_def l_def survivor_def)
  have a': "root_path (parent uf') a (if xr \<noteq> yr \<and> ar = l then w else ar)"
    unfolding l_def w_def by (rule UnionSet_roots[OF r(1,2) u r(3)])
  have b': "root_path (parent uf') b (if xr \<noteq> yr \<and> br = l then w else br)"
    unfolding l_def w_def by (rule UnionSet_roots[OF r(1,2) u r(4)])
  have "same_root uf' a b \<longleftrightarrow>
        (if xr \<noteq> yr \<and> ar = l then w else ar) = (if xr \<noteq> yr \<and> br = l then w else br)"
    using a' b' by (rule same_root_iff)
  also have "\<dots> \<longleftrightarrow> ar = br \<or> (ar = xr \<and> yr = br) \<or> (ar = yr \<and> xr = br)"
    using wl by (cases "xr = yr") auto
  also have "\<dots> \<longleftrightarrow> same_root uf a b \<or> (same_root uf a x \<and> same_root uf y b) \<or>
           (same_root uf a y \<and> same_root uf x b)"
    using same_root_iff[OF r(3) r(4)] same_root_iff[OF r(3) r(1)] same_root_iff[OF r(2) r(4)]
      same_root_iff[OF r(3) r(2)] same_root_iff[OF r(1) r(4)]
    by simp
  finally show ?thesis .
qed

lemma UnionAll_connected:
  assumes "uf_inv uf"
    and "\<forall>(x, y) \<in> set ps. x \<in> dom (parent uf) \<and> y \<in> dom (parent uf)"
    and "\<forall>a \<in> dom (parent uf). \<forall>b \<in> dom (parent uf). same_root uf a b \<longleftrightarrow> (a, b) \<in> connected R"
  shows "\<exists>uf'. UnionAll uf ps = Some uf' \<and> uf_inv uf' \<and> dom (parent uf') = dom (parent uf) \<and>
           isPreferredParent uf' = isPreferredParent uf \<and> zeroT uf' = zeroT uf \<and>
           (\<forall>a \<in> dom (parent uf). \<forall>b \<in> dom (parent uf).
              same_root uf' a b \<longleftrightarrow> (a, b) \<in> connected (R \<union> set ps))"
  using assms
proof (induction ps arbitrary: uf R)
  case Nil
  then show ?case by simp
next
  case (Cons p ps)
  obtain x y where p: "p = (x, y)" by (cases p)
  have x: "x \<in> dom (parent uf)" and y: "y \<in> dom (parent uf)"
    using Cons.prems(2) p by auto
  from UnionSet_inv[OF Cons.prems(1) x y] obtain uf1 where
    uf1: "UnionSet uf x y = Some uf1" "uf_inv uf1" "dom (parent uf1) = dom (parent uf)"
      "isPreferredParent uf1 = isPreferredParent uf" "zeroT uf1 = zeroT uf"
    by blast
  have rel: "\<forall>a \<in> dom (parent uf1). \<forall>b \<in> dom (parent uf1).
      same_root uf1 a b \<longleftrightarrow> (a, b) \<in> connected (insert (x, y) R)"
  proof (intro ballI)
    fix a b assume a: "a \<in> dom (parent uf1)" and b: "b \<in> dom (parent uf1)"
    then have a': "a \<in> dom (parent uf)" and b': "b \<in> dom (parent uf)"
      using uf1(3) by simp_all
    show "same_root uf1 a b \<longleftrightarrow> (a, b) \<in> connected (insert (x, y) R)"
      unfolding UnionSet_same_root[OF Cons.prems(1) x y uf1(1) a' b'] connected_insert
      using Cons.prems(3) a' b' x y by simp
  qed
  have ps: "\<forall>(x, y) \<in> set ps. x \<in> dom (parent uf1) \<and> y \<in> dom (parent uf1)"
    using Cons.prems(2) uf1(3) by auto
  from Cons.IH[OF uf1(2) ps rel] obtain uf' where
    uf': "UnionAll uf1 ps = Some uf'" "uf_inv uf'" "dom (parent uf') = dom (parent uf1)"
      "isPreferredParent uf' = isPreferredParent uf1" "zeroT uf' = zeroT uf1"
      "\<forall>a \<in> dom (parent uf1). \<forall>b \<in> dom (parent uf1).
          same_root uf' a b \<longleftrightarrow> (a, b) \<in> connected (insert (x, y) R \<union> set ps)"
    by blast
  have "UnionAll uf (p # ps) = Some uf'"
    using uf1(1) uf'(1) p by simp
  moreover have "insert (x, y) R \<union> set ps = R \<union> set (p # ps)"
    using p by auto
  ultimately show ?case
    using uf' uf1 by simp
qed

lemma parent_InitKeys:
  "parent (InitKeys uf ks) = (\<lambda>k. if k \<in> set ks then Some k else parent uf k)"
  by (induction ks arbitrary: uf) (auto simp: InitKey_def fun_eq_iff)

lemma FindSet_compresses:
  assumes "root_path (parent uf) k r"
  shows "\<exists>uf'. FindSet uf k = Some (r, uf') \<and> parent uf' k = Some r"
  using assms
proof (cases rule: root_path.cases)
  case at_root
  then have "FindSet uf k = Some (k, uf)"
    by (subst FindSet.simps) (simp add: parent_at_def)
  with at_root show ?thesis by simp
next
  case (via_parent p)
  from FindSet_root_path[OF via_parent(3)] obtain m1 where
    "FindSet uf p = Some (r, uf\<lparr>parent := m1\<rparr>)" by blast
  then have "FindSet uf k = Some (r, uf\<lparr>parent := m1(k \<mapsto> r)\<rparr>)"
    using via_parent(1,2) by (subst FindSet.simps) (simp add: parent_at_def)
  then show ?thesis by simp
qed

lemma FindSet_frame_snd:
  "FindSet uf i = Some y \<Longrightarrow> snd y = uf\<lparr>parent := parent (snd y)\<rparr>"
proof (induct rule: FindSet.raw_induct[rotated 1, consumes 1, case_names step])
  case (step F uf i y)
  show ?case
  proof (cases "parent_at uf i \<noteq> i")
    case True
    with step(2) obtain r1 uf1 where f: "F uf (parent_at uf i) = Some (r1, uf1)"
      and e: "snd y = uf1\<lparr>parent := (parent uf1)(i \<mapsto> r1)\<rparr>"
      by (auto simp: Let_def split: bind_splits)
    from step(1)[OF f] have "uf1 = uf\<lparr>parent := parent uf1\<rparr>" by simp
    then have "uf1\<lparr>parent := (parent uf1)(i \<mapsto> r1)\<rparr> = uf\<lparr>parent := (parent uf1)(i \<mapsto> r1)\<rparr>"
      by (metis UnionFind.update_convs(2) UnionFind.surjective)
    with e have sy: "snd y = uf\<lparr>parent := (parent uf1)(i \<mapsto> r1)\<rparr>" by simp
    then show ?thesis by (simp add: fun_upd_def)
  next
    case False
    with step(2) show ?thesis by auto
  qed
qed

lemma FindSet_frame:
  "FindSet uf i = Some (r, uf') \<Longrightarrow> uf' = uf\<lparr>parent := parent uf'\<rparr>"
  using FindSet_frame_snd[of uf i "(r, uf')"] by simp

lemma parent_at_upd [simp]: "parent_at (uf\<lparr>parent := m(k \<mapsto> r)\<rparr>) k = r"
  by (simp add: parent_at_def)

lemma FindSet_unregistered_zero:
  assumes k: "k \<notin> dom (parent uf)" and z: "zeroT uf \<notin> dom (parent uf)"
  shows "FindSet uf k =
    Some (zeroT uf, if k = zeroT uf then uf else uf\<lparr>parent := (parent uf)(k \<mapsto> zeroT uf)\<rparr>)"
proof -
  have pk: "parent_at uf k = zeroT uf" using k by (simp add: parent_at_def domIff)
  have "parent_at uf (zeroT uf) = zeroT uf" using z by (simp add: parent_at_def domIff)
  then have fz: "FindSet uf (zeroT uf) = Some (zeroT uf, uf)"
    by (subst FindSet.simps) simp
  show ?thesis
  proof (cases "k = zeroT uf")
    case True
    with fz show ?thesis by simp
  next
    case False
    then show ?thesis
      by (subst FindSet.simps) (simp add: pk fz)
  qed
qed

lemma FindSet_unregistered_root:
  assumes k: "k \<notin> dom (parent uf)" and z: "root_path (parent uf) (zeroT uf) r"
  shows "\<exists>uf0. FindSet uf (zeroT uf) = Some (r, uf0) \<and>
               FindSet uf k = Some (r, uf0\<lparr>parent := (parent uf0)(k \<mapsto> r)\<rparr>)"
proof -
  have pk: "parent_at uf k = zeroT uf" using k by (simp add: parent_at_def domIff)
  have nz: "k \<noteq> zeroT uf" using k root_path_dom[OF z] by auto
  from FindSet_root_path[OF z] obtain m1 where
    fz: "FindSet uf (zeroT uf) = Some (r, uf\<lparr>parent := m1\<rparr>)" by blast
  have "FindSet uf k = Some (r, (uf\<lparr>parent := m1\<rparr>)\<lparr>parent := (parent (uf\<lparr>parent := m1\<rparr>))(k \<mapsto> r)\<rparr>)"
    using nz by (subst FindSet.simps) (simp add: pk fz)
  with fz show ?thesis by blast
qed

lemma IsSameSet_roots:
  assumes a: "root_path (parent uf) a ar" and b: "root_path (parent uf) b br"
  shows "\<exists>uf'. IsSameSet uf a b = Some (ar = br, uf')"
proof -
  from FindSet_root_path[OF a] obtain m1 where m1: "FindSet uf a = Some (ar, uf\<lparr>parent := m1\<rparr>)"
    "\<forall>a b. root_path m1 a b \<longleftrightarrow> root_path (parent uf) a b" by blast
  have "root_path (parent (uf\<lparr>parent := m1\<rparr>)) b br" using b m1(2) by simp
  from FindSet_root_path[OF this] obtain m2 where
    "FindSet (uf\<lparr>parent := m1\<rparr>) b = Some (br, uf\<lparr>parent := m2\<rparr>)" by auto
  with m1(1) show ?thesis by (simp add: IsSameSet_def)
qed

lemma InitKeys_fresh:
  "uf_inv (InitKeys (NewUnionFind z) ks) \<and> dom (parent (InitKeys (NewUnionFind z) ks)) = set ks \<and>
   (\<forall>k \<in> set ks. root_path (parent (InitKeys (NewUnionFind z) ks)) k k)"
proof -
  have p: "parent (InitKeys (NewUnionFind z) ks) = (\<lambda>k. if k \<in> set ks then Some k else None)"
    by (auto simp: parent_InitKeys NewUnionFind_def fun_eq_iff)
  have r: "\<forall>k \<in> set ks. root_path (parent (InitKeys (NewUnionFind z) ks)) k k"
    by (auto simp: p intro: root_path.at_root)
  have d: "dom (parent (InitKeys (NewUnionFind z) ks)) = set ks"
    by (auto simp: p split: if_splits)
  show ?thesis using r d unfolding uf_inv_def by blast
qed

text \<open>
  C2. After registering the ids \<open>ks\<close> on a fresh forest and performing any sequence \<open>ps\<close> of
  \<^verbatim>\<open>UnionSet\<close> calls on registered ids, every call returns, and for registered \<open>a\<close> and \<open>b\<close>
  the comparison \<^verbatim>\<open>FindSet(a) == FindSet(b)\<close> (that is \<^verbatim>\<open>IsSameSet\<close>) returns true exactly when
  \<open>a\<close> and \<open>b\<close> are connected in the reflexive-symmetric-transitive closure of the pairs.
\<close>

theorem union_find_connectivity:
  assumes ps: "\<forall>(x, y) \<in> set ps. x \<in> set ks \<and> y \<in> set ks"
    and a: "a \<in> set ks" and b: "b \<in> set ks"
  shows "\<exists>uf uf'. UnionAll (InitKeys (NewUnionFind z) ks) ps = Some uf \<and>
           IsSameSet uf a b = Some ((a, b) \<in> connected (set ps), uf')"
proof -
  define uf0 where "uf0 = InitKeys (NewUnionFind z) ks"
  have inv0: "uf_inv uf0" and dom0: "dom (parent uf0) = set ks"
    and roots0: "\<forall>k \<in> set ks. root_path (parent uf0) k k"
    using InitKeys_fresh[of z ks] by (simp_all add: uf0_def)
  have rel0: "\<forall>a \<in> dom (parent uf0). \<forall>b \<in> dom (parent uf0).
      same_root uf0 a b \<longleftrightarrow> (a, b) \<in> connected {}"
    using roots0 dom0 by (auto simp: connected_def same_root_iff)
  have ps0: "\<forall>(x, y) \<in> set ps. x \<in> dom (parent uf0) \<and> y \<in> dom (parent uf0)"
    using ps dom0 by simp
  from UnionAll_connected[OF inv0 ps0 rel0] obtain uf where
    uf: "UnionAll uf0 ps = Some uf" "uf_inv uf" "dom (parent uf) = dom (parent uf0)"
      "\<forall>a \<in> dom (parent uf0). \<forall>b \<in> dom (parent uf0).
          same_root uf a b \<longleftrightarrow> (a, b) \<in> connected (set ps)"
    by auto
  obtain ar br where r: "root_path (parent uf) a ar" "root_path (parent uf) b br"
    using uf_inv_root_path[OF uf(2)] uf(3) dom0 a b by metis
  have "ar = br \<longleftrightarrow> (a, b) \<in> connected (set ps)"
    using same_root_iff[OF r] uf(4) dom0 a b by simp
  then show ?thesis
    using IsSameSet_roots[OF r] uf(1) by (auto simp: uf0_def)
qed

text \<open>
  C9. For keys \<open>x\<close> and \<open>y\<close> with roots \<open>xr\<close> and \<open>yr\<close>, \<^verbatim>\<open>UnionSet(x, y)\<close> returns and
  decreases \<^verbatim>\<open>NumDisjointSets()\<close> by exactly 1 when the roots differ and leaves it unchanged
  when they are equal; \<^verbatim>\<open>FindSet(x)\<close> returns and leaves it unchanged, and no \<^verbatim>\<open>FindSet\<close>
  call on any key whatsoever changes it.
\<close>

theorem num_sets_frame:
  assumes x: "root_path (parent uf) x xr" and y: "root_path (parent uf) y yr"
  shows "(\<exists>uf'. UnionSet uf x y = Some uf' \<and>
            NumDisjointSets uf' = (if xr = yr then NumDisjointSets uf else NumDisjointSets uf - 1)) \<and>
         (\<exists>uf'. FindSet uf x = Some (xr, uf') \<and> NumDisjointSets uf' = NumDisjointSets uf) \<and>
         (\<forall>i r uf'. FindSet uf i = Some (r, uf') \<longrightarrow> NumDisjointSets uf' = NumDisjointSets uf)"
proof (intro conjI allI impI)
  show "\<exists>uf'. UnionSet uf x y = Some uf' \<and>
      NumDisjointSets uf' = (if xr = yr then NumDisjointSets uf else NumDisjointSets uf - 1)"
    using UnionSet_spec[OF x y] by (auto simp: NumDisjointSets_def split: if_splits)
  show "\<exists>uf'. FindSet uf x = Some (xr, uf') \<and> NumDisjointSets uf' = NumDisjointSets uf"
    using FindSet_root_path[OF x] by (auto simp: NumDisjointSets_def)
  show "NumDisjointSets uf' = NumDisjointSets uf" if "FindSet uf i = Some (r, uf')" for i r uf'
    using FindSet_frame[OF that]
    by (metis NumDisjointSets_def UnionFind.select_convs(5) UnionFind.surjective UnionFind.update_convs(2))
qed

text \<open>
  C8, amended. \<^verbatim>\<open>FindSet(k)\<close> returns for every key \<open>k\<close> that has a root, returns that root and
  leaves \<open>k\<close> linked to it directly (path compression). A lookup of an unregistered key
  returns too, without any error. When the zero value of the key type is unregistered as
  well, the result is the zero value; the forest is left as it was when \<open>k\<close> is the zero
  value itself, and otherwise the only change is the new entry that makes the zero value
  the parent of \<open>k\<close>. When the zero value is registered, the result is the root \<open>r\<close> of the
  zero value, and the forest is the one that \<^verbatim>\<open>FindSet\<close> of the zero value leaves, with the
  new entry that makes \<open>r\<close> the parent of \<open>k\<close>.
\<close>

theorem FindSet_total:
  "(root_path (parent uf) k r \<longrightarrow>
      (\<exists>uf'. FindSet uf k = Some (r, uf') \<and> parent uf' k = Some r)) \<and>
   (k \<notin> dom (parent uf) \<and> zeroT uf \<notin> dom (parent uf) \<longrightarrow>
      FindSet uf k =
        Some (zeroT uf,
              if k = zeroT uf then uf else uf\<lparr>parent := (parent uf)(k \<mapsto> zeroT uf)\<rparr>)) \<and>
   (k \<notin> dom (parent uf) \<and> root_path (parent uf) (zeroT uf) r \<longrightarrow>
      (\<exists>uf0. FindSet uf (zeroT uf) = Some (r, uf0) \<and>
             FindSet uf k = Some (r, uf0\<lparr>parent := (parent uf0)(k \<mapsto> r)\<rparr>)))"
  using FindSet_compresses[of uf k r] FindSet_unregistered_zero[of k uf]
    FindSet_unregistered_root[of k uf r] by blast

lemma FindSet_twice:
  assumes x: "root_path (parent uf) x xr" and y: "root_path (parent uf) y yr"
  shows "\<exists>uf1 uf2. FindSet uf x = Some (xr, uf1) \<and> FindSet uf1 y = Some (yr, uf2)"
proof -
  from FindSet_root_path[OF x] obtain m1 where m1: "FindSet uf x = Some (xr, uf\<lparr>parent := m1\<rparr>)"
    "\<forall>a b. root_path m1 a b \<longleftrightarrow> root_path (parent uf) a b" by blast
  have "root_path (parent (uf\<lparr>parent := m1\<rparr>)) y yr" using y m1(2) by simp
  from FindSet_root_path[OF this] m1(1) show ?thesis by blast
qed

lemma survivor_keeps_flagged:
  assumes "preferred_at uf r" "xr \<noteq> yr"
    and "xr = r \<Longrightarrow> \<not> preferred_at uf yr" and "yr = r \<Longrightarrow> \<not> preferred_at uf xr"
  shows "(if survivor uf xr yr = xr then yr else xr) \<noteq> r"
  using assms by (auto simp: survivor_def split: if_splits)

lemma preferred_at_cong: "isPreferredParent uf' = isPreferredParent uf \<Longrightarrow> preferred_at uf' = preferred_at uf"
  by (simp add: preferred_at_def fun_eq_iff)

text \<open>
  C3, amended. Let \<open>r\<close> be a flagged root of a well-formed forest. After any sequence of
  \<^verbatim>\<open>UnionSet\<close> calls on registered ids in which every call that joins the set of \<open>r\<close> with
  another set finds the other root unflagged, \<open>r\<close> is still a flagged root, and \<^verbatim>\<open>FindSet\<close>
  returns \<open>r\<close> for every key that had root \<open>r\<close> before and for every key in the set of \<open>r\<close>
  afterwards.
\<close>

theorem preferred_root_survives:
  assumes "uf_inv uf" and "parent uf r = Some r" and "preferred_at uf r"
    and "\<forall>(x, y) \<in> set ps. x \<in> dom (parent uf) \<and> y \<in> dom (parent uf)"
    and "merges_unflagged uf r ps"
  shows "\<exists>uf'. UnionAll uf ps = Some uf' \<and> parent uf' r = Some r \<and> preferred_at uf' r \<and>
           (\<forall>k. root_path (parent uf) k r \<or> same_root uf' k r \<longrightarrow>
                (\<exists>uf''. FindSet uf' k = Some (r, uf'')))"
  using assms
proof (induction ps arbitrary: uf)
  case Nil
  have "\<exists>uf''. FindSet uf k = Some (r, uf'')" if "root_path (parent uf) k r \<or> same_root uf k r" for k
  proof -
    from that Nil.prems(2) have "root_path (parent uf) k r"
      by (auto simp: same_root_def root_path_of_root)
    from FindSet_root_path[OF this] show ?thesis by blast
  qed
  with Nil.prems show ?case by simp
next
  case (Cons p ps)
  obtain x y where p: "p = (x, y)" by (cases p)
  have x: "x \<in> dom (parent uf)" and y: "y \<in> dom (parent uf)"
    using Cons.prems(4) p by auto
  obtain xr yr where xr: "root_path (parent uf) x xr" and yr: "root_path (parent uf) y yr"
    using uf_inv_root_path[OF Cons.prems(1)] x y by blast
  from UnionSet_inv[OF Cons.prems(1) x y] obtain uf1 where
    uf1: "UnionSet uf x y = Some uf1" "uf_inv uf1" "dom (parent uf1) = dom (parent uf)"
      "isPreferredParent uf1 = isPreferredParent uf"
    by blast
  from FindSet_twice[OF xr yr] obtain u1 u2 where
    f: "FindSet uf x = Some (xr, u1)" "FindSet u1 y = Some (yr, u2)" by blast
  have cond: "xr = r \<Longrightarrow> yr \<noteq> r \<Longrightarrow> \<not> preferred_at uf yr"
    "yr = r \<Longrightarrow> xr \<noteq> r \<Longrightarrow> \<not> preferred_at uf xr"
    and rest: "merges_unflagged uf1 r ps"
    using Cons.prems(5) p f uf1(1) by (auto split: if_splits)
  have keep: "root_path (parent uf1) k r" if "root_path (parent uf) k r" for k
  proof -
    have "\<not> (xr \<noteq> yr \<and> r = (if survivor uf xr yr = xr then yr else xr))"
    proof (cases "xr = yr")
      case True
      then show ?thesis by simp
    next
      case False
      have "(if survivor uf xr yr = xr then yr else xr) \<noteq> r"
        using Cons.prems(3) False
      proof (rule survivor_keeps_flagged)
        show "\<not> preferred_at uf yr" if "xr = r" using that False cond(1) by simp
        show "\<not> preferred_at uf xr" if "yr = r" using that False cond(2) by simp
      qed
      then show ?thesis by metis
    qed
    with UnionSet_roots[OF xr yr uf1(1) that] show ?thesis by simp
  qed
  have "root_path (parent uf) r r" using Cons.prems(2) by (rule root_path.at_root)
  then have r1: "parent uf1 r = Some r" using keep root_path_root by metis
  have pr1: "preferred_at uf1 r" using Cons.prems(3) preferred_at_cong[OF uf1(4)] by simp
  have ps1: "\<forall>(x, y) \<in> set ps. x \<in> dom (parent uf1) \<and> y \<in> dom (parent uf1)"
    using Cons.prems(4) uf1(3) by auto
  from Cons.IH[OF uf1(2) r1 pr1 ps1 rest] obtain uf' where
    uf': "UnionAll uf1 ps = Some uf'" "parent uf' r = Some r" "preferred_at uf' r"
      "\<forall>k. root_path (parent uf1) k r \<or> same_root uf' k r \<longrightarrow>
           (\<exists>uf''. FindSet uf' k = Some (r, uf''))"
    by blast
  have "UnionAll uf (p # ps) = Some uf'" using uf1(1) uf'(1) p by simp
  then show ?case using uf'(2,3,4) keep by blast
qed

lemma connected_empty: "(a, b) \<in> connected {} \<longleftrightarrow> a = b"
  by (simp add: connected_def)

lemmas uf_eval = FindSet.simps UnionSet_def IsSameSet_def parent_at_def rank_at_def size_at_def
  preferred_at_def InitKey_def NewUnionFind_def MarkAsParent_def NumDisjointSets_def

theorem union_find_connectivity_witness:
  "(\<exists>uf uf'. UnionAll (InitKeys (NewUnionFind '''') [''a'', ''b'', ''c''])
                 [(''a'', ''b''), (''c'', ''b'')] = Some uf \<and>
              IsSameSet uf ''a'' ''c'' = Some (True, uf')) \<and>
   (\<exists>uf uf'. UnionAll (InitKeys (NewUnionFind '''') [''a'', ''b'', ''c''])
                 [(''a'', ''b'')] = Some uf \<and>
              IsSameSet uf ''a'' ''c'' = Some (False, uf'))"
  using union_find_connectivity [of "[(''a'', ''b''), (''c'', ''b'')]" "[''a'', ''b'', ''c'']"
      "''a''" "''c''" "''''"]
    union_find_connectivity [of "[(''a'', ''b'')]" "[''a'', ''b'', ''c'']" "''a''" "''c''" "''''"]
  by (simp add: connected_insert connected_empty)

theorem num_sets_frame_witness:
  "root_path (parent (InitKeys (NewUnionFind '''') [''a'', ''b''])) ''a'' ''a'' \<and>
   root_path (parent (InitKeys (NewUnionFind '''') [''a'', ''b''])) ''b'' ''b'' \<and>
   NumDisjointSets (InitKeys (NewUnionFind '''') [''a'', ''b'']) = 2 \<and>
   (\<exists>uf'. UnionSet (InitKeys (NewUnionFind '''') [''a'', ''b'']) ''a'' ''b'' = Some uf' \<and>
          NumDisjointSets uf' = 1) \<and>
   (\<exists>uf'. UnionSet (InitKeys (NewUnionFind '''') [''a'', ''b'']) ''a'' ''a'' = Some uf' \<and>
          NumDisjointSets uf' = 2) \<and>
   (\<exists>uf'. FindSet (InitKeys (NewUnionFind '''') [''a'', ''b'']) ''a'' = Some (''a'', uf') \<and>
          NumDisjointSets uf' = 2)"
proof -
  have a: "root_path (parent (InitKeys (NewUnionFind '''') [''a'', ''b''])) ''a'' ''a''"
    and b: "root_path (parent (InitKeys (NewUnionFind '''') [''a'', ''b''])) ''b'' ''b''"
    by (rule root_path.at_root, simp add: InitKey_def NewUnionFind_def)+
  have n: "NumDisjointSets (InitKeys (NewUnionFind '''') [''a'', ''b'']) = 2"
    by (simp add: uf_eval)
  show ?thesis
    using a b n num_sets_frame [OF a b] num_sets_frame [OF a a] by simp
qed

text \<open>
  C8, as stated, fails: a lookup of an id that was never registered is not an error. On the
  forest holding only \<open>''a''\<close> the call \<^verbatim>\<open>FindSet("b")\<close> returns the empty string, the zero
  value of the key type, and enters the empty string as the parent of \<open>''b''\<close>; the call
  \<^verbatim>\<open>FindSet("")\<close> returns the empty string and writes nothing.
\<close>

theorem FindSet_unregistered_counterexample:
  "''b'' \<notin> dom (parent (InitKey (NewUnionFind '''') ''a'')) \<and>
   FindSet (InitKey (NewUnionFind '''') ''a'') ''b'' =
     Some ('''', (InitKey (NewUnionFind '''') ''a'')
                   \<lparr>parent := (parent (InitKey (NewUnionFind '''') ''a''))(''b'' \<mapsto> '''')\<rparr>) \<and>
   FindSet (InitKey (NewUnionFind '''') ''a'') '''' = Some ('''', InitKey (NewUnionFind '''') ''a'')"
  by (simp add: uf_eval)

theorem FindSet_total_witness:
  "root_path (parent (InitKey (NewUnionFind '''') ''a'')) ''a'' ''a'' \<and>
   (\<exists>uf'. FindSet (InitKey (NewUnionFind '''') ''a'') ''a'' = Some (''a'', uf') \<and>
          parent uf' ''a'' = Some ''a'') \<and>
   ''b'' \<notin> dom (parent (InitKey (NewUnionFind '''') ''a'')) \<and>
   zeroT (InitKey (NewUnionFind '''') ''a'') \<notin> dom (parent (InitKey (NewUnionFind '''') ''a'')) \<and>
   FindSet (InitKey (NewUnionFind '''') ''a'') ''b'' =
     Some ('''', (InitKey (NewUnionFind '''') ''a'')
                   \<lparr>parent := (parent (InitKey (NewUnionFind '''') ''a''))(''b'' \<mapsto> '''')\<rparr>) \<and>
   '''' \<notin> dom (parent (InitKey (NewUnionFind '''') ''a'')) \<and>
   FindSet (InitKey (NewUnionFind '''') ''a'') '''' = Some ('''', InitKey (NewUnionFind '''') ''a'') \<and>
   ''c'' \<notin> dom (parent (InitKeys (NewUnionFind '''') ['''', ''a''])) \<and>
   root_path (parent (InitKeys (NewUnionFind '''') ['''', ''a''])) '''' '''' \<and>
   (\<exists>uf0. FindSet (InitKeys (NewUnionFind '''') ['''', ''a'']) '''' = Some ('''', uf0) \<and>
      FindSet (InitKeys (NewUnionFind '''') ['''', ''a'']) ''c'' =
        Some ('''', uf0\<lparr>parent := (parent uf0)(''c'' \<mapsto> '''')\<rparr>))"
proof -
  let ?u = "InitKey (NewUnionFind '''') ''a''"
  let ?v = "InitKeys (NewUnionFind '''') ['''', ''a'']"
  have a: "root_path (parent ?u) ''a'' ''a''"
    by (rule root_path.at_root) (simp add: InitKey_def NewUnionFind_def)
  have b: "''b'' \<notin> dom (parent ?u)"
    and e: "'''' \<notin> dom (parent ?u)"
    and z: "zeroT ?u \<notin> dom (parent ?u)"
    and z': "zeroT ?u = ''''"
    by (simp_all add: InitKey_def NewUnionFind_def)
  have c: "''c'' \<notin> dom (parent ?v)" and zv: "zeroT ?v = ''''"
    by (simp_all add: InitKey_def NewUnionFind_def)
  have rz: "root_path (parent ?v) '''' ''''"
    by (rule root_path.at_root) (simp add: InitKey_def NewUnionFind_def)
  show ?thesis
    using a b e z z' c zv rz FindSet_total [of ?u "''a''" "''a''"]
      FindSet_total [of ?u "''b''" "''a''"] FindSet_total [of ?u "''''" "''a''"]
      FindSet_total [of ?v "''c''" "''''"]
    by simp
qed

text \<open>
  C3, as stated, fails: \<open>''a''\<close> is a flagged root, and so is \<open>''b''\<close>; then
  \<^verbatim>\<open>UnionSet("a", "b")\<close> falls through to the rank comparison and makes \<open>''b''\<close> the root
  of \<open>''a''\<close>.
\<close>

theorem preferred_root_counterexample:
  "parent (MarkAsParent (MarkAsParent (InitKeys (NewUnionFind '''') [''a'', ''b'']) ''a'') ''b'') ''a''
     = Some ''a'' \<and>
   preferred_at (MarkAsParent (MarkAsParent (InitKeys (NewUnionFind '''') [''a'', ''b'']) ''a'') ''b'') ''a'' \<and>
   Option.bind
     (UnionSet (MarkAsParent (MarkAsParent (InitKeys (NewUnionFind '''') [''a'', ''b'']) ''a'') ''b'')
        ''a'' ''b'')
     (\<lambda>uf. map_option fst (FindSet uf ''a'')) = Some ''b''"
  by (simp add: uf_eval)

lemma uf_inv_MarkAsParent: "uf_inv uf \<Longrightarrow> uf_inv (MarkAsParent uf k)"
  by (simp add: uf_inv_def MarkAsParent_def)

theorem preferred_root_survives_witness:
  "uf_inv (MarkAsParent (InitKeys (NewUnionFind '''') [''a'', ''b'', ''c'']) ''a'') \<and>
   preferred_at (MarkAsParent (InitKeys (NewUnionFind '''') [''a'', ''b'', ''c'']) ''a'') ''a'' \<and>
   merges_unflagged (MarkAsParent (InitKeys (NewUnionFind '''') [''a'', ''b'', ''c'']) ''a'') ''a''
     [(''b'', ''a''), (''c'', ''b'')] \<and>
   (\<exists>uf'. UnionAll (MarkAsParent (InitKeys (NewUnionFind '''') [''a'', ''b'', ''c'']) ''a'')
            [(''b'', ''a''), (''c'', ''b'')] = Some uf' \<and>
          parent uf' ''a'' = Some ''a'' \<and>
          (\<exists>uf''. FindSet uf' ''a'' = Some (''a'', uf'')))"
proof -
  define U where "U = MarkAsParent (InitKeys (NewUnionFind '''') [''a'', ''b'', ''c'']) ''a''"
  have inv: "uf_inv U"
    unfolding U_def using InitKeys_fresh [of "''''" "[''a'', ''b'', ''c'']"]
    by (simp add: uf_inv_MarkAsParent)
  have root: "parent U ''a'' = Some ''a''" and pref: "preferred_at U ''a''"
    by (simp_all add: U_def uf_eval)
  have reg: "\<forall>(x, y) \<in> set [(''b'', ''a''), (''c'', ''b'')]. x \<in> dom (parent U) \<and> y \<in> dom (parent U)"
    by (simp add: U_def uf_eval)
  have m: "merges_unflagged U ''a'' [(''b'', ''a''), (''c'', ''b'')]"
    by (simp add: U_def uf_eval)
  have "root_path (parent U) ''a'' ''a''" using root by (rule root_path.at_root)
  then show ?thesis
    using inv pref m preferred_root_survives [OF inv root pref reg m]
    unfolding U_def by blast
qed

section \<open>Properties of the pass\<close>

lemma roots_root_path: "k \<in> roots uf \<longleftrightarrow> root_path (parent uf) k k"
  using root_path_root root_path.at_root by (fastforce simp: roots_def)

lemma FindSet_inv:
  assumes inv: "uf_inv uf" and k: "k \<in> dom (parent uf)"
  shows "\<exists>r uf'. FindSet uf k = Some (r, uf') \<and> uf_inv uf' \<and>
           dom (parent uf') = dom (parent uf) \<and> r \<in> dom (parent uf) \<and>
           numSets uf' = numSets uf \<and> roots uf' = roots uf \<and> root_path (parent uf) k r \<and>
           (\<forall>a b. root_path (parent uf') a b \<longleftrightarrow> root_path (parent uf) a b)"
proof -
  obtain r where r: "root_path (parent uf) k r"
    using uf_inv_root_path[OF inv k] by blast
  from FindSet_root_path[OF r] obtain m' where m': "FindSet uf k = Some (r, uf\<lparr>parent := m'\<rparr>)"
    "dom m' = dom (parent uf)" "\<forall>a b. root_path m' a b \<longleftrightarrow> root_path (parent uf) a b"
    by blast
  have "uf_inv (uf\<lparr>parent := m'\<rparr>)"
    using inv m'(2,3) by (simp add: uf_inv_def)
  moreover have "roots (uf\<lparr>parent := m'\<rparr>) = roots uf"
    using m'(3) by (auto simp: roots_root_path)
  moreover have "r \<in> dom (parent uf)"
    using root_path_root[OF r] by auto
  ultimately show ?thesis using m' r by simp
qed

lemma UnionSet_count:
  assumes inv: "uf_inv uf" and x: "x \<in> dom (parent uf)" and y: "y \<in> dom (parent uf)"
    and fin: "finite (dom (parent uf))" and cnt: "numSets uf = int (card (roots uf))"
  shows "\<exists>uf'. UnionSet uf x y = Some uf' \<and> uf_inv uf' \<and> dom (parent uf') = dom (parent uf) \<and>
           numSets uf' = int (card (roots uf'))"
proof -
  obtain xr yr where xr: "root_path (parent uf) x xr" and yr: "root_path (parent uf) y yr"
    using uf_inv_root_path[OF inv] x y by blast
  from UnionSet_inv[OF inv x y] obtain uf' where
    uf': "UnionSet uf x y = Some uf'" "uf_inv uf'" "dom (parent uf') = dom (parent uf)"
    by blast
  define l where "l = (if survivor uf xr yr = xr then yr else xr)"
  define w where "w = survivor uf xr yr"
  have spec: "if xr = yr
            then numSets uf' = numSets uf \<and>
                 (\<forall>a b. root_path (parent uf') a b \<longleftrightarrow> root_path (parent uf) a b)
            else numSets uf' = numSets uf - 1 \<and>
                 (\<forall>a b. root_path (parent uf') a b \<longleftrightarrow>
                    (root_path (parent uf) a l \<and> b = w) \<or> (root_path (parent uf) a b \<and> b \<noteq> l))"
    using UnionSet_spec[OF xr yr] uf'(1) unfolding l_def w_def by auto
  have "numSets uf' = int (card (roots uf'))"
  proof (cases "xr = yr")
    case True
    with spec have "roots uf' = roots uf" by (auto simp: roots_root_path)
    with True spec cnt show ?thesis by simp
  next
    case False
    have wl: "(w = xr \<and> l = yr) \<or> (w = yr \<and> l = xr)"
      using False by (auto simp: w_def l_def survivor_def)
    have rx: "xr \<in> roots uf" and ry: "yr \<in> roots uf"
      using root_path_root[OF xr] root_path_root[OF yr] by (simp_all add: roots_def)
    then have lr: "l \<in> roots uf" and wr: "w \<in> roots uf" using wl by auto
    have "w \<noteq> l" using wl False by auto
    have "\<not> root_path (parent uf) w l"
      using wr \<open>w \<noteq> l\<close> root_path_of_root[of "parent uf" w l] by (simp add: roots_def)
    then have "roots uf' = roots uf - {l}"
      using spec False by (auto simp: roots_root_path)
    moreover have "finite (roots uf)"
      using fin by (rule rev_finite_subset) (auto simp: roots_def)
    ultimately have "card (roots uf') = card (roots uf) - 1" using lr by simp
    moreover have "card (roots uf) > 0" using lr \<open>finite (roots uf)\<close> by (auto simp: card_gt_0_iff)
    ultimately show ?thesis using spec False cnt by simp
  qed
  with uf' show ?thesis by blast
qed

lemma UnionSet_forest_ok:
  assumes "forest_ok D uf" "x \<in> D" "y \<in> D"
  shows "\<exists>uf'. UnionSet uf x y = Some uf' \<and> forest_ok D uf'"
  using assms UnionSet_count[of uf x y] by (auto simp: forest_ok_def)

lemma register_stops_eq:
  assumes "\<forall>k s. stops k = Some s \<longrightarrow> Id_stop s = k" and "set ks \<subseteq> dom stops"
  shows "register_stops stops ks (pts, uf) =
           (pts @ map (\<lambda>k. \<lparr>Lat = Lat_stop (the (stops k)), Lon = Lon_stop (the (stops k)),
                              Data = the (stops k)\<rparr>) ks,
            InitKeys uf ks)"
  using assms(2)
proof (induction ks arbitrary: pts uf)
  case Nil
  show ?case by simp
next
  case (Cons k ks)
  then obtain s where s: "stops k = Some s" by auto
  with assms(1) have "Id_stop s = k" by simp
  with s Cons show ?case by simp
qed

lemma numSets_InitKeys: "numSets (InitKeys uf ks) = numSets uf + int (length ks)"
  by (induction ks arbitrary: uf) (auto simp: InitKey_def)

lemma forest_ok_InitKeys:
  assumes "distinct ks"
  shows "forest_ok (set ks) (InitKeys (NewUnionFind z) ks)"
proof -
  have p: "parent (InitKeys (NewUnionFind z) ks) = (\<lambda>k. if k \<in> set ks then Some k else None)"
    by (auto simp: parent_InitKeys NewUnionFind_def fun_eq_iff)
  have "roots (InitKeys (NewUnionFind z) ks) = set ks"
    by (auto simp: roots_def p)
  moreover have "numSets (InitKeys (NewUnionFind z) ks) = int (length ks)"
    by (simp add: numSets_InitKeys NewUnionFind_def)
  ultimately show ?thesis
    using InitKeys_fresh[of z ks] assms by (simp add: forest_ok_def distinct_card)
qed

lemma seed_hierarchy_ok:
  assumes "wf_feed stops" and "forest_ok (dom stops) uf"
  shows "\<exists>uf'. seed_hierarchy stops ks uf = Some uf' \<and> forest_ok (dom stops) uf'"
  using assms(2)
proof (induction ks arbitrary: uf)
  case Nil
  then show ?case by simp
next
  case (Cons k ks)
  show ?case
  proof (cases "stops k")
    case None
    with Cons show ?thesis by simp
  next
    case (Some s)
    show ?thesis
    proof (cases "Parent_station s")
      case None
      with Some Cons show ?thesis by simp
    next
      case (Some pid)
      have "Id_stop s \<in> dom stops" "pid \<in> dom stops"
        using assms(1) \<open>stops k = Some s\<close> Some by (auto simp: wf_feed_def)
      from UnionSet_forest_ok[OF Cons.prems this] obtain uf1 where
        "UnionSet uf (Id_stop s) pid = Some uf1" "forest_ok (dom stops) uf1" by blast
      with Cons.IH[of uf1] \<open>stops k = Some s\<close> Some show ?thesis by simp
    qed
  qed
qed

lemma union_matches_ok:
  assumes "forest_ok D uf" and "Id_stop s \<in> D" and "\<forall>p \<in> set ps. Id_stop (Data p) \<in> D"
  shows "\<exists>uf'. union_matches e s n ps uf = Some uf' \<and> forest_ok D uf'"
  using assms(1,3)
proof (induction ps arbitrary: uf)
  case Nil
  then show ?case by simp
next
  case (Cons p ps)
  from UnionSet_forest_ok[OF Cons.prems(1) assms(2), of "Id_stop (Data p)"] Cons.prems(2)
  obtain uf1 where u: "UnionSet uf (Id_stop s) (Id_stop (Data p)) = Some uf1" "forest_ok D uf1"
    by auto
  have rest: "\<forall>p \<in> set ps. Id_stop (Data p) \<in> D" using Cons.prems(2) by simp
  from Cons.IH[OF u(2) rest] obtain uf2 where
    a: "union_matches e s n ps uf1 = Some uf2" "forest_ok D uf2" by blast
  from Cons.IH[OF Cons.prems(1) rest] obtain uf3 where
    b: "union_matches e s n ps uf = Some uf3" "forest_ok D uf3" by blast
  show ?case using u(1) a b by (simp add: Let_def)
qed

lemma propose_unions_ok:
  assumes "wf_feed stops" and "forest_ok (dom stops) uf"
    and "\<forall>p \<in> points_of tree. Id_stop (Data p) \<in> dom stops"
  shows "\<exists>uf'. propose_unions e stops tree ks uf = Some uf' \<and> forest_ok (dom stops) uf'"
  using assms(2)
proof (induction ks arbitrary: uf)
  case Nil
  then show ?case by simp
next
  case (Cons k ks)
  show ?case
  proof (cases "stops k")
    case None
    with Cons show ?thesis by simp
  next
    case (Some s)
    define results where "results =
      SearchRange tree \<lparr>Lat = Lat_stop s, Lon = Lon_stop s, Data = s\<rparr> radiusKm 0 []"
    have "set results \<subseteq> points_of tree"
      unfolding results_def using SearchRange_sound[of tree _ radiusKm 0 "[]"] by auto
    then have res: "\<forall>p \<in> set results. Id_stop (Data p) \<in> dom stops"
      using assms(3) by blast
    have "Id_stop s \<in> dom stops"
      using assms(1) Some by (auto simp: wf_feed_def)
    from union_matches_ok[OF Cons.prems this res] obtain uf1 where
      "union_matches e s (normalize (Unidecode e) (norm_order e (Id_stop s)) (Name s)) results uf = Some uf1"
      "forest_ok (dom stops) uf1" by blast
    with Cons.IH[of uf1] Some show ?thesis by (simp add: Let_def results_def)
  qed
qed

lemma synth_refl: "wf_feed S0 \<Longrightarrow> synth S0 S0"
  unfolding synth_def wf_feed_def by auto

lemma synth_dom: "synth S0 m \<Longrightarrow> dom S0 \<subseteq> dom m"
  unfolding synth_def by blast

lemma synth_insert:
  assumes s: "synth S0 m" and new: "m parID = None" and k0: "k0 \<in> dom S0"
    and parID: "parID = ''par::'' @ k0"
  shows "synth S0 (m(parID \<mapsto> createParentStopFrom orig parID))"
proof -
  have "parID \<notin> dom S0" using synth_dom[OF s] new by auto
  then show ?thesis
    using s k0 parID unfolding synth_def createParentStopFrom_def
    by (auto simp: dom_def)
qed

lemma synth_set_parent:
  assumes s: "synth S0 m" and k: "k \<in> dom S0" and mk: "m k = Some stop"
    and p: "m parID \<noteq> None"
  shows "synth S0 (set_parent m k stop parID)"
    and "has_parent (set_parent m k stop parID) k"
    and "\<forall>j. has_parent m j \<longrightarrow> has_parent (set_parent m k stop parID) j"
    and "\<forall>j. j \<noteq> k \<longrightarrow> set_parent m k stop parID j = m j"
    and "dom (set_parent m k stop parID) = dom m"
    and "parent_is (set_parent m k stop parID) k parID"
proof -
  obtain q where q: "m parID = Some q" using p by auto
  have e: "set_parent m k stop parID = m(k \<mapsto> stop\<lparr>Parent_station := Some parID\<rparr>)"
    by (simp add: set_parent_def q)
  obtain s0 where s0: "S0 k = Some s0" using k by auto
  then have st: "stop = s0\<lparr>Parent_station := Parent_station stop\<rparr>"
    using s mk unfolding synth_def by fastforce
  have "stop\<lparr>Parent_station := Some parID\<rparr> =
        s0\<lparr>Parent_station := Parent_station (stop\<lparr>Parent_station := Some parID\<rparr>)\<rparr>"
    by (subst st) simp
  then show "synth S0 (set_parent m k stop parID)"
    using s s0 k q unfolding synth_def e
    by (auto simp: dom_def)
  show "has_parent (set_parent m k stop parID) k"
    by (simp add: e has_parent_def)
  show "\<forall>j. has_parent m j \<longrightarrow> has_parent (set_parent m k stop parID) j"
    by (auto simp: e has_parent_def)
  show "\<forall>j. j \<noteq> k \<longrightarrow> set_parent m k stop parID j = m j"
    by (simp add: e)
  show "dom (set_parent m k stop parID) = dom m"
    using mk by (auto simp: e)
  show "parent_is (set_parent m k stop parID) k parID"
    by (simp add: e parent_is_def)
qed

lemma remap_parents_synth:
  assumes wf: "wf_feed S0"
  shows "synth S0 m \<Longrightarrow> distinct ks \<Longrightarrow> (\<forall>k \<in> set ks. k \<in> dom S0 \<longrightarrow> m k = S0 k) \<Longrightarrow>
         synth S0 (remap_parents ks m)"
proof (induction ks arbitrary: m)
  case Nil
  then show ?case by simp
next
  case (Cons k ks)
  show ?case
  proof (cases "m k")
    case None
    with Cons show ?thesis by simp
  next
    case (Some stop)
    show ?thesis
    proof (cases "Parent_station stop")
      case None
      with Some Cons show ?thesis by simp
    next
      case (Some pid)
      have kD: "k \<in> dom S0"
        using Cons.prems(1) \<open>m k = Some stop\<close> Some unfolding synth_def by force
      then have "S0 k = Some stop" using Cons.prems(3) \<open>m k = Some stop\<close> by simp
      then have pid: "pid \<in> dom S0" using wf Some by (auto simp: wf_feed_def)
      let ?parID = "''par::'' @ pid"
      let ?m1 = "if m ?parID = None then m(?parID \<mapsto> createParentStopFrom stop ?parID) else m"
      have s1: "synth S0 ?m1"
        using synth_insert[OF Cons.prems(1) _ pid refl] Cons.prems(1)
        by (cases "m ?parID = None") simp_all
      have kp: "m ?parID = None \<Longrightarrow> k \<noteq> ?parID" using \<open>m k = Some stop\<close> by auto
      then have m1k: "?m1 k = Some stop" using \<open>m k = Some stop\<close> by auto
      have m1p: "?m1 ?parID \<noteq> None" by auto
      have notD: "m ?parID = None \<Longrightarrow> ?parID \<notin> dom S0"
        using synth_dom[OF Cons.prems(1)] by auto
      note sp = synth_set_parent[OF s1 kD m1k m1p]
      have rest: "\<forall>j \<in> set ks. j \<in> dom S0 \<longrightarrow> set_parent ?m1 k stop ?parID j = S0 j"
      proof (intro ballI impI)
        fix j assume j: "j \<in> set ks" "j \<in> dom S0"
        then have "j \<noteq> k" using Cons.prems(2) by auto
        then have "set_parent ?m1 k stop ?parID j = ?m1 j" using sp(4) by simp
        also have "?m1 j = m j" using notD j(2) by auto
        also have "m j = S0 j" using Cons.prems(3) j by simp
        finally show "set_parent ?m1 k stop ?parID j = S0 j" .
      qed
      have "synth S0 (remap_parents ks (set_parent ?m1 k stop ?parID))"
        using Cons.IH[OF sp(1) _ rest] Cons.prems(2) by simp
      moreover have "remap_parents (k # ks) m = remap_parents ks (set_parent ?m1 k stop ?parID)"
        using \<open>m k = Some stop\<close> Some by (simp add: Let_def)
      ultimately show ?thesis by simp
    qed
  qed
qed

lemma canonical_parent_step:
  assumes s: "synth S0 m" and key: "key \<in> dom S0" and r: "r \<in> dom S0"
  shows "\<exists>m'. canonical_parent key r m = Some m' \<and> synth S0 m' \<and>
              parent_is m' key (''par::'' @ r) \<and>
              (\<forall>j p. j \<noteq> key \<longrightarrow> parent_is m j p \<longrightarrow> parent_is m' j p)"
proof -
  obtain stop where stop: "m key = Some stop" using synth_dom[OF s] key by auto
  obtain orig where orig: "m r = Some orig" using synth_dom[OF s] r by auto
  let ?parID = "''par::'' @ r"
  show ?thesis
  proof (cases "m ?parID")
    case None
    let ?m1 = "m(?parID \<mapsto> createParentStopFrom orig ?parID)"
    have s1: "synth S0 ?m1"
      using synth_insert[OF s None r refl] .
    have "key \<noteq> ?parID" using None stop by auto
    then have m1k: "?m1 key = Some stop" using stop by simp
    have m1p: "?m1 ?parID \<noteq> None" by simp
    note sp = synth_set_parent[OF s1 key m1k m1p]
    have "canonical_parent key r m = Some (set_parent ?m1 key stop ?parID)"
      using None stop orig by (simp add: canonical_parent_def Let_def)
    moreover have "\<forall>j p. j \<noteq> key \<longrightarrow> parent_is m j p \<longrightarrow>
        parent_is (set_parent ?m1 key stop ?parID) j p"
    proof (intro allI impI)
      fix j p assume j: "j \<noteq> key" "parent_is m j p"
      then have "j \<noteq> ?parID" using None by (auto simp: parent_is_def)
      then have "?m1 j = m j" by simp
      moreover have "set_parent ?m1 key stop ?parID j = ?m1 j" using sp(4) j(1) by blast
      ultimately show "parent_is (set_parent ?m1 key stop ?parID) j p"
        using j(2) by (simp add: parent_is_def)
    qed
    ultimately show ?thesis using sp(1,6) by blast
  next
    case (Some q)
    then have mp: "m ?parID \<noteq> None" by simp
    note sp = synth_set_parent[OF s key stop mp]
    have "canonical_parent key r m = Some (set_parent m key stop ?parID)"
      using Some stop by (simp add: canonical_parent_def Let_def)
    moreover have "\<forall>j p. j \<noteq> key \<longrightarrow> parent_is m j p \<longrightarrow>
        parent_is (set_parent m key stop ?parID) j p"
      using sp(4) by (auto simp: parent_is_def)
    ultimately show ?thesis using sp(1,6) by blast
  qed
qed

lemma Apply_canonical_parent:
  assumes "forest_ok (dom S0) uf" and "synth S0 m" and "set ks \<subseteq> dom S0" and "distinct ks"
  shows "\<exists>uf' m'. Apply uf ks canonical_parent m = Some (uf', m') \<and>
           numSets uf' = numSets uf \<and> roots uf' = roots uf \<and> synth S0 m' \<and>
           (\<forall>j p. j \<notin> set ks \<longrightarrow> parent_is m j p \<longrightarrow> parent_is m' j p) \<and>
           (\<forall>k \<in> set ks. \<exists>r. root_path (parent uf) k r \<and> parent_is m' k (''par::'' @ r))"
  using assms
proof (induction ks arbitrary: uf m)
  case Nil
  then show ?case by simp
next
  case (Cons k ks)
  have inv: "uf_inv uf" and d: "dom (parent uf) = dom S0"
    using Cons.prems(1) by (simp_all add: forest_ok_def)
  have k: "k \<in> dom (parent uf)" using Cons.prems(3) d by simp
  from FindSet_inv[OF inv k] obtain r uf1 where
    f: "FindSet uf k = Some (r, uf1)" "uf_inv uf1" "dom (parent uf1) = dom (parent uf)"
      "r \<in> dom (parent uf)" "numSets uf1 = numSets uf" "roots uf1 = roots uf"
      "root_path (parent uf) k r"
      "\<forall>a b. root_path (parent uf1) a b \<longleftrightarrow> root_path (parent uf) a b"
    by blast
  have ok1: "forest_ok (dom S0) uf1"
    using Cons.prems(1) f by (simp add: forest_ok_def)
  have kD: "k \<in> dom S0" and rD: "r \<in> dom S0" using k f(4) d by simp_all
  from canonical_parent_step[OF Cons.prems(2) kD rD] obtain m1 where
    c: "canonical_parent k r m = Some m1" "synth S0 m1" "parent_is m1 k (''par::'' @ r)"
      "\<forall>j p. j \<noteq> k \<longrightarrow> parent_is m j p \<longrightarrow> parent_is m1 j p"
    by blast
  have ks: "set ks \<subseteq> dom S0" and dks: "distinct ks" and kks: "k \<notin> set ks"
    using Cons.prems(3,4) by simp_all
  from Cons.IH[OF ok1 c(2) ks dks] obtain uf' m' where
    a: "Apply uf1 ks canonical_parent m1 = Some (uf', m')" "numSets uf' = numSets uf1"
      "roots uf' = roots uf1" "synth S0 m'"
      "\<forall>j p. j \<notin> set ks \<longrightarrow> parent_is m1 j p \<longrightarrow> parent_is m' j p"
      "\<forall>k \<in> set ks. \<exists>r. root_path (parent uf1) k r \<and> parent_is m' k (''par::'' @ r)"
    by blast
  have 1: "Apply uf (k # ks) canonical_parent m = Some (uf', m')"
    using f(1) c(1) a(1) by simp
  have 2: "\<forall>j p. j \<notin> set (k # ks) \<longrightarrow> parent_is m j p \<longrightarrow> parent_is m' j p"
    using c(4) a(5) by auto
  have 3: "\<forall>j \<in> set (k # ks). \<exists>r. root_path (parent uf) j r \<and> parent_is m' j (''par::'' @ r)"
  proof
    fix j assume "j \<in> set (k # ks)"
    then consider "j = k" | "j \<in> set ks" by auto
    then show "\<exists>r. root_path (parent uf) j r \<and> parent_is m' j (''par::'' @ r)"
    proof cases
      case 1
      then show ?thesis using f(7) c(3) a(5) kks by blast
    next
      case 2
      then show ?thesis using a(6) f(8) by blast
    qed
  qed
  have 4: "numSets uf' = numSets uf" "roots uf' = roots uf"
    using a(2,3) f(5,6) by simp_all
  show ?case
    using 1 2 3 4 a(4) by (intro exI[of _ uf'] exI[of _ m'] conjI)
qed

lemma backfill_noop:
  assumes "synth S0 m" and "\<forall>k \<in> dom S0. has_parent m k"
  shows "backfill ks m = m"
proof (induction ks)
  case Nil
  show ?case by simp
next
  case (Cons k ks)
  show ?case
  proof (cases "m k")
    case None
    with Cons show ?thesis by simp
  next
    case (Some stop)
    have "\<not> (Location_type stop = 0 \<and> Parent_station stop = None)"
    proof (cases "k \<in> dom S0")
      case True
      with assms(2) have "has_parent m k" by blast
      with Some show ?thesis by (auto simp: has_parent_def)
    next
      case False
      with assms(1) Some have "Location_type stop = 1" unfolding synth_def by blast
      then show ?thesis by simp
    qed
    with Some Cons show ?thesis by auto
  qed
qed

lemma parent_is_has_parent: "parent_is m k p \<Longrightarrow> has_parent m k"
  by (auto simp: parent_is_def has_parent_def)

lemma register_points:
  assumes wf: "wf_feed S0" and ks: "set ks \<subseteq> dom S0"
  shows "\<forall>p \<in> set (map (\<lambda>k. \<lparr>Lat = Lat_stop (the (S0 k)), Lon = Lon_stop (the (S0 k)),
                              Data = the (S0 k)\<rparr>) ks). Id_stop (Data p) \<in> dom S0"
  using assms by (auto simp: wf_feed_def)

lemma Run_spec:
  assumes wf: "wf_feed S0" and ro: "ranges_ok e S0"
  shows "\<exists>pts uf0 uf1 uf2 m'.
           register_stops S0 (stops_range e 1) ([], NewUnionFind '''') = (pts, uf0) \<and>
           seed_hierarchy S0 (stops_range e 2) uf0 = Some uf1 \<and>
           propose_unions e S0 (BuildKDTreeParallelLimited pts 0) (stops_range e 3) uf1 = Some uf2 \<and>
           Run e S0 = Some (m', int (card (roots uf1)), int (card (roots uf2))) \<and>
           roots uf0 = dom S0 \<and> forest_ok (dom S0) uf1 \<and> forest_ok (dom S0) uf2 \<and>
           synth S0 m' \<and>
           (\<forall>k \<in> dom S0. \<exists>r. root_path (parent uf2) k r \<and> parent_is m' k (''par::'' @ r))"
proof -
  have r1: "distinct (stops_range e 1)" "set (stops_range e 1) = dom S0"
    and r4: "distinct (stops_range e 4)"
    and rp: "distinct (parent_range e)" "set (parent_range e) = dom S0"
    using ro by (simp_all add: ranges_ok_def)
  have ids: "\<forall>k s. S0 k = Some s \<longrightarrow> Id_stop s = k"
    using wf by (simp add: wf_feed_def)
  define pts where "pts = map (\<lambda>k. \<lparr>Lat = Lat_stop (the (S0 k)), Lon = Lon_stop (the (S0 k)),
                              Data = the (S0 k)\<rparr>) (stops_range e 1)"
  define uf0 where "uf0 = InitKeys (NewUnionFind '''') (stops_range e 1)"
  have reg: "register_stops S0 (stops_range e 1) ([], NewUnionFind '''') = (pts, uf0)"
    using register_stops_eq[OF ids, of "stops_range e 1" "[]" "NewUnionFind ''''"] r1(2)
    by (simp add: pts_def uf0_def)
  have ok0: "forest_ok (dom S0) uf0"
    using forest_ok_InitKeys[OF r1(1), of "''''"] r1(2) by (simp add: uf0_def)
  have roots0: "roots uf0 = dom S0"
    using r1(2) by (auto simp: roots_def uf0_def parent_InitKeys NewUnionFind_def)
  from seed_hierarchy_ok[OF wf ok0] obtain uf1 where
    seed: "seed_hierarchy S0 (stops_range e 2) uf0 = Some uf1" and ok1: "forest_ok (dom S0) uf1"
    by blast
  define tree where "tree = BuildKDTreeParallelLimited pts 0"
  have tp: "\<forall>p \<in> points_of tree. Id_stop (Data p) \<in> dom S0"
    using register_points[OF wf, of "stops_range e 1"] r1(2)
    by (simp add: tree_def BuildKDTreeParallelLimited_def points_of_BuildKDTree pts_def)
  from propose_unions_ok[OF wf ok1 tp] obtain uf2 where
    pu: "propose_unions e S0 tree (stops_range e 3) uf1 = Some uf2"
    and ok2: "forest_ok (dom S0) uf2"
    by blast
  define m4 where "m4 = remap_parents (stops_range e 4) S0"
  have s4: "synth S0 m4"
    unfolding m4_def using remap_parents_synth[OF wf synth_refl[OF wf] r4] by simp
  from Apply_canonical_parent[OF ok2 s4 _ rp(1)] rp(2) obtain uf3 m5 where
    ap: "Apply uf2 (parent_range e) canonical_parent m4 = Some (uf3, m5)"
      "numSets uf3 = numSets uf2" "synth S0 m5"
      "\<forall>k \<in> dom S0. \<exists>r. root_path (parent uf2) k r \<and> parent_is m5 k (''par::'' @ r)"
    by auto
  have "\<forall>k \<in> dom S0. has_parent m5 k"
    using ap(4) parent_is_has_parent by blast
  then have bf: "backfill (stops_range e 5) m5 = m5"
    using backfill_noop[OF ap(3)] by simp
  have n1: "numSets uf1 = int (card (roots uf1))" and n2: "numSets uf2 = int (card (roots uf2))"
    using ok1 ok2 by (simp_all add: forest_ok_def)
  have "Run e S0 = Some (m5, int (card (roots uf1)), int (card (roots uf2)))"
    using reg seed pu ap(1,2) bf n1 n2
    by (simp add: Run_def Let_def tree_def m4_def NumDisjointSets_def)
  then show ?thesis
    using reg seed pu roots0 ok1 ok2 ap(3,4) unfolding tree_def by blast
qed

subsection \<open>The pass on the concrete feeds\<close>

lemmas run_eval = Run_def example_env_def feed_child_parent_def feed_single_def feed_processed_def
  stop_at_origin_def BuildKDTreeParallelLimited_def BuildKDTree.simps SliceStable_def Let_def
  fle_def fge_def fsub_def ConsiderSame_def Ratio_equal_def TOL_IS_SAME_def radiusKm_def
  FindSet.simps UnionSet_def parent_at_def rank_at_def size_at_def
  preferred_at_def InitKey_def NewUnionFind_def NumDisjointSets_def
  canonical_parent_def set_parent_def createParentStopFrom_def

lemma normalize_main: "normalize (\<lambda>s. s) replacements ''main'' = ''main''"
  by code_simp

lemma Haversine_same_place: "Haversine (Fin 0) (Fin 0) (Fin 0) (Fin 0) = Fin 0"
  by (simp add: Haversine_def angle_of_def EarthRadiusKm_def math_Pi_def fsub_def)

lemma coordDegrees_origin: "coordDegrees (Fin (1 / 2)) (Fin 0) cd = Fin (90 / (6371 * pi))"
  by (simp add: coordDegrees_def EarthRadiusKm_def math_Pi_def Let_def)

lemma wf_feed_child_parent: "wf_feed feed_child_parent"
  by (auto simp: wf_feed_def feed_child_parent_def stop_at_origin_def split: if_splits)

lemma wf_feed_processed: "wf_feed feed_processed"
  by (auto simp: wf_feed_def feed_processed_def stop_at_origin_def split: if_splits)

lemma ranges_ok_child_parent:
  "ranges_ok (example_env [''A'', ''P''] [''A'', ''P'', ''par::P'']) feed_child_parent"
  by (auto simp: ranges_ok_def example_env_def feed_child_parent_def)

lemma ranges_ok_processed:
  "ranges_ok (example_env [''A'', ''par::A''] [''A'', ''par::A'', ''par::par::A'']) feed_processed"
  by (auto simp: ranges_ok_def example_env_def feed_processed_def)

subsection \<open>Parent coverage\<close>



subsection \<open>The two reported numbers\<close>

text \<open>
  C7, as stated, fails. The feed holds the stop \<open>A\<close> and its parent station \<open>P\<close>: two stops,
  two singletons before any union. The hierarchy seeding unions them, and only then does
  the pass read \<^verbatim>\<open>prev\<close>: it reports 1 as the value before, not 2.
\<close>

theorem reported_before_counterexample:
  "NumDisjointSets
     (snd (register_stops feed_child_parent [''A'', ''P''] ([], NewUnionFind ''''))) = 2 \<and>
   map_option snd (Run (example_env [''A'', ''P''] [''A'', ''P'', ''par::P'']) feed_child_parent)
     = Some (1, 1)"
  by (simp add: run_eval Haversine_same_place coordDegrees_origin normalize_main)

text \<open>
  C7, amended. On a well-formed feed the pass completes, and of the pair it reports the
  value before is the number of disjoint sets (roots of the forest) \<^emph>\<open>after\<close> the
  hierarchy-seeding unions of step 1 and before the unions of the proximity search, and the
  value after is the number of disjoint sets after all unions. (Before the seeding, the
  roots are all the stops of the feed.)
\<close>

theorem reported_counts:
  assumes "wf_feed stops" and "ranges_ok e stops"
  shows "\<exists>pts uf0 uf1 uf2 stops'.
           register_stops stops (stops_range e 1) ([], NewUnionFind '''') = (pts, uf0) \<and>
           roots uf0 = dom stops \<and>
           seed_hierarchy stops (stops_range e 2) uf0 = Some uf1 \<and>
           propose_unions e stops (BuildKDTreeParallelLimited pts 0) (stops_range e 3) uf1
             = Some uf2 \<and>
           Run e stops = Some (stops', int (card (roots uf1)), int (card (roots uf2)))"
  using Run_spec[OF assms] by blast

theorem reported_counts_witness:
  "wf_feed feed_child_parent \<and>
   ranges_ok (example_env [''A'', ''P''] [''A'', ''P'', ''par::P'']) feed_child_parent \<and>
   (\<exists>pts uf0 uf1 uf2 stops'.
      register_stops feed_child_parent [''A'', ''P''] ([], NewUnionFind '''') = (pts, uf0) \<and>
      roots uf0 = dom feed_child_parent \<and>
      seed_hierarchy feed_child_parent [''A'', ''P''] uf0 = Some uf1 \<and>
      propose_unions (example_env [''A'', ''P''] [''A'', ''P'', ''par::P'']) feed_child_parent
        (BuildKDTreeParallelLimited pts 0) [''A'', ''P''] uf1 = Some uf2 \<and>
      Run (example_env [''A'', ''P''] [''A'', ''P'', ''par::P'']) feed_child_parent
        = Some (stops', int (card (roots uf1)), int (card (roots uf2))))"
proof -
  have r: "stops_range (example_env [''A'', ''P''] [''A'', ''P'', ''par::P'']) 1 = [''A'', ''P'']"
    "stops_range (example_env [''A'', ''P''] [''A'', ''P'', ''par::P'']) 2 = [''A'', ''P'']"
    "stops_range (example_env [''A'', ''P''] [''A'', ''P'', ''par::P'']) 3 = [''A'', ''P'']"
    by (simp_all add: example_env_def)
  show ?thesis
    using wf_feed_child_parent ranges_ok_child_parent
      reported_counts [OF wf_feed_child_parent ranges_ok_child_parent, unfolded r]
    by (intro conjI)
qed

subsection \<open>A second pass\<close>

lemma Run_single:
  "map_option fst (Run (example_env [''A''] [''A'', ''par::A'']) feed_single)
     = Some feed_processed"
  by (simp add: run_eval Haversine_same_place coordDegrees_origin normalize_main fun_eq_iff)

lemma Run_processed:
  "\<exists>stops2 p a.
      Run (example_env [''A'', ''par::A''] [''A'', ''par::A'', ''par::par::A'']) feed_processed
        = Some (stops2, p, a) \<and>
      ''par::par::A'' \<in> dom stops2"
  by (simp add: run_eval Haversine_same_place coordDegrees_origin normalize_main)

text \<open>
  C4, as stated, fails. One pass over the feed that holds the single stop \<open>A\<close> yields the
  feed with \<open>A\<close> and its synthetic parent \<open>par::A\<close>. A second pass over that feed finds the
  parent reference of \<open>A\<close> and redirects it to the \<^verbatim>\<open>"par::"\<close> record of the parent's id,
  \<open>par::par::A\<close>, which it creates: the set of stop records has grown.
\<close>

theorem second_pass_counterexample:
  "map_option fst (Run (example_env [''A''] [''A'', ''par::A'']) feed_single)
     = Some feed_processed \<and>
   ''par::par::A'' \<notin> dom feed_processed \<and>
   (\<exists>stops2 p a.
      Run (example_env [''A'', ''par::A''] [''A'', ''par::A'', ''par::par::A'']) feed_processed
        = Some (stops2, p, a) \<and>
      ''par::par::A'' \<in> dom stops2)"
proof (intro conjI)
  show "map_option fst (Run (example_env [''A''] [''A'', ''par::A'']) feed_single)
     = Some feed_processed"
    by (rule Run_single)
  show "''par::par::A'' \<notin> dom feed_processed"
    by (simp add: feed_processed_def)
  show "\<exists>stops2 p a.
      Run (example_env [''A'', ''par::A''] [''A'', ''par::A'', ''par::par::A'']) feed_processed
        = Some (stops2, p, a) \<and>
      ''par::par::A'' \<in> dom stops2"
    by (rule Run_processed)
qed

text \<open>
  C4, amended. A pass over a well-formed feed, in particular over one that a pass has
  already processed, completes and removes nothing: every stop record is kept, changed at
  most in its parent reference. The records it adds are synthetic: each has an id
  \<^verbatim>\<open>"par::"\<close> + \<open>k0\<close> for a stop \<open>k0\<close> that was in the feed before the pass (so a second pass
  adds \<open>par::par::X\<close> for a synthetic parent \<open>par::X\<close>), location type 1 and no parent. The
  result is again a well-formed feed.
\<close>

theorem pass_only_adds_synthetic_records:
  assumes "wf_feed stops" and "ranges_ok e stops"
  shows "\<exists>stops' prev after. Run e stops = Some (stops', prev, after) \<and> wf_feed stops' \<and>
           (\<forall>k s. stops k = Some s \<longrightarrow>
              (\<exists>s'. stops' k = Some s' \<and> s' = s\<lparr>Parent_station := Parent_station s'\<rparr>)) \<and>
           (\<forall>k s. k \<notin> dom stops \<longrightarrow> stops' k = Some s \<longrightarrow>
              (\<exists>k0 \<in> dom stops. k = ''par::'' @ k0) \<and> Location_type s = 1 \<and>
              Parent_station s = None)"
proof -
  from Run_spec[OF assms] obtain uf1 uf2 :: "string UnionFind" and m' where
    run: "Run e stops = Some (m', int (card (roots uf1)), int (card (roots uf2)))"
    and sy: "synth stops m'"
    by blast
  have keep: "\<forall>k s. stops k = Some s \<longrightarrow>
      (\<exists>s'. m' k = Some s' \<and> s' = s\<lparr>Parent_station := Parent_station s'\<rparr>)"
    and new: "\<forall>k s. k \<notin> dom stops \<longrightarrow> m' k = Some s \<longrightarrow>
      (\<exists>k0 \<in> dom stops. k = ''par::'' @ k0) \<and> Id_stop s = k \<and> Location_type s = 1 \<and>
      Parent_station s = None"
    and ref: "\<forall>k s p. m' k = Some s \<longrightarrow> Parent_station s = Some p \<longrightarrow> p \<in> dom m'"
    using sy unfolding synth_def by blast+
  have fin0: "finite (dom stops)" and id0: "\<forall>k s. stops k = Some s \<longrightarrow> Id_stop s = k"
    using assms(1) by (simp_all add: wf_feed_def)
  have "dom m' \<subseteq> dom stops \<union> (\<lambda>k0. ''par::'' @ k0) ` dom stops"
    using new by (auto simp: dom_def) blast
  then have fin: "finite (dom m')"
    using fin0 by (meson finite_UnI finite_imageI finite_subset)
  have ids: "Id_stop s = k" if "m' k = Some s" for k s
  proof (cases "k \<in> dom stops")
    case True
    then obtain s0 where s0: "stops k = Some s0" by auto
    with keep that have "s = s0\<lparr>Parent_station := Parent_station s\<rparr>" by fastforce
    then have "Id_stop s = Id_stop s0" by (metis Stop.select_convs(1) Stop.surjective Stop.update_convs(6))
    with id0 s0 show ?thesis by simp
  next
    case False
    with new that show ?thesis by blast
  qed
  have "wf_feed m'"
    unfolding wf_feed_def using fin ids ref by blast
  with run keep new show ?thesis by blast
qed

theorem pass_only_adds_synthetic_records_witness:
  "wf_feed feed_processed \<and>
   ranges_ok (example_env [''A'', ''par::A''] [''A'', ''par::A'', ''par::par::A'']) feed_processed \<and>
   (\<exists>stops' prev after.
      Run (example_env [''A'', ''par::A''] [''A'', ''par::A'', ''par::par::A'']) feed_processed
        = Some (stops', prev, after) \<and>
      wf_feed stops' \<and> stops' ''A'' \<noteq> None \<and> stops' ''par::A'' \<noteq> None)"
proof -
  have a: "feed_processed ''A'' = Some (stop_at_origin ''A'' 0 (Some ''par::A''))"
    and b: "feed_processed ''par::A'' = Some (stop_at_origin ''par::A'' 1 None)"
    by (simp_all add: feed_processed_def)
  from pass_only_adds_synthetic_records [OF wf_feed_processed ranges_ok_processed]
  obtain stops' prev after where
    r: "Run (example_env [''A'', ''par::A''] [''A'', ''par::A'', ''par::par::A'']) feed_processed
          = Some (stops', prev, after)" "wf_feed stops'"
      "\<forall>k s. feed_processed k = Some s \<longrightarrow>
          (\<exists>s'. stops' k = Some s' \<and> s' = s\<lparr>Parent_station := Parent_station s'\<rparr>)"
    by blast
  have "stops' ''A'' \<noteq> None" "stops' ''par::A'' \<noteq> None"
    using r(3) a b by fastforce+
  with r(1,2) wf_feed_processed ranges_ok_processed show ?thesis by blast
qed

end
